theory Spec2Isabelle
  imports Complex_Main
begin

section \<open>Binary floating point, finite values\<close>

text \<open>
  The program computes with C++ \<open>float\<close> (IEEE 754 binary32, round to nearest, ties to
  even) and compares against a few \<open>double\<close> literals (binary64). A finite float is the
  real number it denotes; every arithmetic operation is the exact operation followed by
  one rounding. Infinities and NaN are not values of the model: where the source can
  produce one (a division by zero, \<open>acos\<close> outside its domain) the model says so at that
  place, and a result beyond the largest finite float is rounded on the grid of the top
  binade instead of becoming an infinity.

  \<open>rhe\<close> rounds to the nearest integer, ties to even. \<open>expo_search lo hi r\<close> is the
  binary exponent of \<open>r\<close>, clamped to the exponent range of the format (the lower clamp
  gives the subnormal numbers their fixed spacing). \<open>round_bin p emin emax\<close> rounds to
  \<open>p\<close> significant bits.
\<close>

definition rhe :: "real \<Rightarrow> int" where
  "rhe x = (let f = \<lfloor>x\<rfloor>; r = x - of_int f
            in if r < 1 / 2 then f
               else if 1 / 2 < r then f + 1
               else if even f then f else f + 1)"

function expo_search :: "int \<Rightarrow> int \<Rightarrow> real \<Rightarrow> int" where
  "expo_search lo hi r =
     (if hi \<le> lo then lo
      else let mid = (lo + hi + 1) div 2
           in if 2 powi mid \<le> r then expo_search mid hi r
              else expo_search lo (mid - 1) r)"
  by pat_completeness auto
termination
  by (relation "measure (\<lambda>(lo, hi, r). nat (hi - lo))") auto

declare expo_search.simps [simp del]

definition round_bin :: "nat \<Rightarrow> int \<Rightarrow> int \<Rightarrow> real \<Rightarrow> real" where
  "round_bin p emin emax r =
     (let q = 2 powi (expo_search emin emax \<bar>r\<bar> - int p + 1)
      in of_int (rhe (r / q)) * q)"

definition fl32 :: "real \<Rightarrow> real" where
  "fl32 = round_bin 24 (- 126) 127"

definition fl64 :: "real \<Rightarrow> real" where
  "fl64 = round_bin 53 (- 1022) 1023"

definition fadd :: "real \<Rightarrow> real \<Rightarrow> real" where
  "fadd a b = fl32 (a + b)"

definition fsub :: "real \<Rightarrow> real \<Rightarrow> real" where
  "fsub a b = fl32 (a - b)"

definition fmul :: "real \<Rightarrow> real \<Rightarrow> real" where
  "fmul a b = fl32 (a * b)"

definition fdiv :: "real \<Rightarrow> real \<Rightarrow> real" where
  "fdiv a b = fl32 (a / b)"

text \<open>The conversion \<open>(int)x\<close> truncates toward zero. Beyond the range of \<open>int\<close> it is
  undefined in C++, and the model keeps the mathematical value: the sampled coordinates
  are only compared with the bounds of the map, and \<open>nCeiling\<close> stays between \<open>-380\<close>
  and \<open>17\<close> at every distance the march reports.\<close>

definition c_int :: "real \<Rightarrow> int" where
  "c_int x = (if 0 \<le> x then \<lfloor>x\<rfloor> else \<lceil>x\<rceil>)"

text \<open>\<open>fmod x y\<close> is \<open>x - n * y\<close> with \<open>n\<close> the quotient truncated toward zero; the
  result is exact.\<close>

definition fmodf :: "real \<Rightarrow> real \<Rightarrow> real" where
  "fmodf x y = x - of_int (c_int (x / y)) * y"

text \<open>
  The functions of the C math library are not part of the repository. The operations take
  them as a parameter \<open>L\<close>; \<open>ref_libm\<close> is the library that rounds the exact function
  correctly, used where a closed statement needs one.
\<close>

record libm =
  sinf :: "real \<Rightarrow> real"
  cosf :: "real \<Rightarrow> real"
  sqrtf :: "real \<Rightarrow> real"
  acosf :: "real \<Rightarrow> real"

definition ref_libm :: libm where
  "ref_libm = \<lparr> sinf = (\<lambda>a. fl32 (sin a)), cosf = (\<lambda>a. fl32 (cos a)),
                sqrtf = (\<lambda>a. fl32 (sqrt a)), acosf = (\<lambda>a. fl32 (arccos a)) \<rparr>"

section \<open>Constants and the map\<close>

definition nScreenWidth :: int where "nScreenWidth = 120"
definition nScreenHeight :: int where "nScreenHeight = 40"
definition nMapHeight :: int where "nMapHeight = 16"
definition nMapWidth :: int where "nMapWidth = 16"

text \<open>The literal \<open>3.14159f\<close>.\<close>

definition pi_lit :: real where
  "pi_lit = fl32 (314159 / 100000)"

definition fFOV :: real where "fFOV = fdiv pi_lit 4"
definition fDepth :: real where "fDepth = 16"
definition fSpeed :: real where "fSpeed = 5"
definition fTurnSpeed :: real where "fTurnSpeed = fl32 (8 / 10)"
definition fBoundaryTolerance :: real where "fBoundaryTolerance = fl32 (1 / 100)"

definition map_w :: string where
  "map_w =
     ''################'' @
     ''#..............#'' @
     ''####...##..##..#'' @
     ''#..............#'' @
     ''#..............#'' @
     ''#.........#....#'' @
     ''#..............#'' @
     ''#....###....#..#'' @
     ''#..............#'' @
     ''####...........#'' @
     ''#..............#'' @
     ''#..............#'' @
     ''#.......########'' @
     ''#..............#'' @
     ''#..............#'' @
     ''################''"

section \<open>Movement and collision\<close>

datatype error = OutOfRange

text \<open>
  \<open>map[i]\<close> on the \<open>wstring\<close>: the characters at \<open>0 .. 255\<close>, the terminator at
  \<open>256\<close>, and undefined behaviour anywhere else.
\<close>

definition map_at :: "int \<Rightarrow> error + char" where
  "map_at i =
     (if 0 \<le> i \<and> i < int (length map_w) then Inr (map_w ! nat i)
      else if i = int (length map_w) then Inr (CHR 0x00)
      else Inl OutOfRange)"

definition MovePlayer ::
  "libm \<Rightarrow> real \<times> real \<Rightarrow> real \<Rightarrow> real \<Rightarrow> bool \<Rightarrow> error + real \<times> real" where
  "MovePlayer L pos angle elapsedTime forward =
     (let moveStep = (if forward then fSpeed else - fSpeed);
          x = fadd (fst pos) (fmul (fmul (sinf L angle) moveStep) elapsedTime);
          y = fadd (snd pos) (fmul (fmul (cosf L angle) moveStep) elapsedTime)
      in case map_at (c_int y * nMapWidth + c_int x) of
           Inl e \<Rightarrow> Inl e
         | Inr c \<Rightarrow>
             if c = CHR ''#''
             then Inr (fsub x (fmul (fmul (sinf L angle) moveStep) elapsedTime),
                       fsub y (fmul (fmul (cosf L angle) moveStep) elapsedTime))
             else Inr (x, y))"

section \<open>Wall shading\<close>

text \<open>Lines 130 to 135 of \<open>RenderScene\<close>: the glyph of the wall slab of one column.\<close>

definition nShade :: "real \<Rightarrow> bool \<Rightarrow> nat" where
  "nShade fDistanceToWall bBoundary =
     (let s = (if fDistanceToWall \<le> fdiv fDepth 4 then 0x2588
               else if fDistanceToWall < fdiv fDepth 3 then 0x2593
               else if fDistanceToWall < fdiv fDepth 2 then 0x2592
               else if fDistanceToWall < fDepth then 0x2591
               else of_char (CHR '' ''))
      in if bBoundary then of_char (CHR '' '') else s)"

section \<open>Minimap direction glyph\<close>

text \<open>The choice of \<open>playerDirection\<close> in \<open>main\<close>, from the heading \<open>fPlayerA\<close>.\<close>

definition playerDirection :: "real \<Rightarrow> nat" where
  "playerDirection fPlayerA =
     (let angle = fmodf fPlayerA (fmul 2 pi_lit)
      in if fdiv (- pi_lit) 4 \<le> angle \<and> angle < fdiv pi_lit 4
         then of_char (CHR ''v'')
         else if fdiv pi_lit 4 \<le> angle \<and> angle < fdiv (fmul 3 pi_lit) 4
         then of_char (CHR ''>'')
         else if fdiv (fmul 3 pi_lit) 4 \<le> angle \<or> angle < fdiv (fmul (- 3) pi_lit) 4
         then of_char (CHR ''^'')
         else of_char (CHR ''<''))"

section \<open>Ray casting\<close>

text \<open>
  The local state of the ray march of one screen column: the three variables the loop of
  \<open>RenderScene\<close> reads and writes.
\<close>

record ray =
  fDistanceToWall :: real
  bHitWall :: bool
  bBoundary :: bool

record player =
  fPlayerX :: real
  fPlayerY :: real
  fPlayerA :: real

text \<open>
  One corner of the wall cell that was hit: its distance to the player and the dot
  product of the ray with the unit vector to it. With \<open>d = 0\<close> the two divisions give
  NaN or an infinity, written \<open>None\<close>.
\<close>

definition corner ::
  "libm \<Rightarrow> real \<Rightarrow> real \<Rightarrow> real \<Rightarrow> real \<Rightarrow> int \<Rightarrow> int \<Rightarrow> int \<Rightarrow> int
     \<Rightarrow> real \<times> real option" where
  "corner L px py fEyeX fEyeY nTestX nTestY tx ty =
     (let vy = fsub (fadd (fl32 (of_int nTestY)) (fl32 (of_int ty))) py;
          vx = fsub (fadd (fl32 (of_int nTestX)) (fl32 (of_int tx))) px;
          d = sqrtf L (fadd (fmul vx vx) (fmul vy vy));
          dot = (if d = 0 then None
                 else Some (fadd (fdiv (fmul fEyeX vx) d) (fdiv (fmul fEyeY vy) d)))
      in (d, dot))"

text \<open>
  \<open>acos(v) < fBoundaryTolerance\<close>: false when \<open>v\<close> is not a number or lies outside
  \<open>[-1, 1]\<close>, where \<open>acos\<close> returns NaN.
\<close>

definition acos_below :: "libm \<Rightarrow> real option \<Rightarrow> bool" where
  "acos_below L v =
     (case v of None \<Rightarrow> False
      | Some c \<Rightarrow> - 1 \<le> c \<and> c \<le> 1 \<and> acosf L c < fBoundaryTolerance)"

text \<open>\<open>p.at(i)\<close> throws when \<open>i\<close> is not an index of \<open>p\<close>: the result \<open>None\<close>.\<close>

definition at_v :: "'a list \<Rightarrow> nat \<Rightarrow> 'a option" where
  "at_v p i = (if i < length p then Some (p ! i) else None)"

fun check_from :: "libm \<Rightarrow> (real \<times> real option) list \<Rightarrow> nat list \<Rightarrow> bool option" where
  "check_from L p [] = Some False"
| "check_from L p (i # is) =
     (case at_v p i of
        None \<Rightarrow> None
      | Some a \<Rightarrow> if acos_below L (snd a) then Some True else check_from L p is)"

definition CheckWallBoundary :: "libm \<Rightarrow> (real \<times> real option) list \<Rightarrow> bool option" where
  "CheckWallBoundary L p = check_from L p [0 ..< 2]"

text \<open>
  The block that runs when a wall cell is hit: the four corners in the order of the two
  nested loops, sorted by distance, and the test of the nearest two. The vector always
  has four elements, so \<open>CheckWallBoundary\<close> does not throw here.
\<close>

definition wallBoundary ::
  "libm \<Rightarrow> real \<Rightarrow> real \<Rightarrow> real \<Rightarrow> real \<Rightarrow> int \<Rightarrow> int \<Rightarrow> bool" where
  "wallBoundary L px py fEyeX fEyeY nTestX nTestY =
     (let p = concat (map (\<lambda>tx. map (\<lambda>ty. corner L px py fEyeX fEyeY nTestX nTestY tx ty)
                                   [0, 1]) [0, 1])
      in CheckWallBoundary L (sort_key fst p) = Some True)"

text \<open>One iteration of the \<open>while\<close> loop.\<close>

definition rayStep :: "libm \<Rightarrow> real \<Rightarrow> real \<Rightarrow> real \<Rightarrow> real \<Rightarrow> ray \<Rightarrow> ray" where
  "rayStep L px py fEyeX fEyeY s =
     (let d = fadd (fDistanceToWall s) (fl32 (1 / 10));
          nTestX = c_int (fadd px (fmul fEyeX d));
          nTestY = c_int (fadd py (fmul fEyeY d))
      in if nTestX < 0 \<or> nTestX \<ge> nMapWidth \<or> nTestY < 0 \<or> nTestY \<ge> nMapHeight
         then s\<lparr>fDistanceToWall := fDepth, bHitWall := True\<rparr>
         else if map_w ! nat (nTestY * nMapWidth + nTestX) = CHR ''#''
         then s\<lparr>fDistanceToWall := d, bHitWall := True,
                 bBoundary := wallBoundary L px py fEyeX fEyeY nTestX nTestY\<rparr>
         else s\<lparr>fDistanceToWall := d\<rparr>)"

text \<open>The loop \<open>while (!bHitWall && fDistanceToWall < fDepth)\<close>; \<open>None\<close> is a march
  that never ends.\<close>

partial_function (option) rayLoop ::
  "libm \<Rightarrow> real \<Rightarrow> real \<Rightarrow> real \<Rightarrow> real \<Rightarrow> ray \<Rightarrow> ray option" where
  "rayLoop L px py fEyeX fEyeY s =
     (if \<not> bHitWall s \<and> fDistanceToWall s < fDepth
      then rayLoop L px py fEyeX fEyeY (rayStep L px py fEyeX fEyeY s)
      else Some s)"

definition ray0 :: ray where
  "ray0 = \<lparr>fDistanceToWall = 0, bHitWall = False, bBoundary = False\<rparr>"

definition fRayAngle :: "player \<Rightarrow> int \<Rightarrow> real" where
  "fRayAngle P x =
     fadd (fsub (fPlayerA P) (fdiv fFOV 2))
          (fmul (fdiv (fl32 (of_int x)) (fl32 (of_int nScreenWidth))) fFOV)"

definition castRay :: "libm \<Rightarrow> player \<Rightarrow> int \<Rightarrow> ray option" where
  "castRay L P x =
     rayLoop L (fPlayerX P) (fPlayerY P)
       (sinf L (fRayAngle P x)) (cosf L (fRayAngle P x)) ray0"

section \<open>Columns and the frame buffer\<close>

text \<open>
  \<open>nCeiling\<close> and \<open>nFloor\<close> of a column from its distance. The definition is the
  program's where the converted float lies in the range of \<open>int\<close>. It does at every
  distance the march reports (from \<open>0.1f\<close> to \<open>16.0000248\<close>); it does not at \<open>0\<close>,
  where the source divides by zero, nor for a positive distance below about
  \<open>1.9e-8\<close>, where the conversion overflows. The statements below are about the
  distances of the march only.
\<close>

definition nCeiling :: "real \<Rightarrow> int" where
  "nCeiling d =
     c_int (fsub (fdiv (fl32 (of_int nScreenHeight)) 2) (fdiv (fl32 (of_int nScreenHeight)) d))"

definition nFloor :: "real \<Rightarrow> int" where
  "nFloor d = nScreenHeight - nCeiling d"

text \<open>The floor glyph of row \<open>y\<close>; the literals \<open>0.25\<close> to \<open>0.9\<close> are doubles.\<close>

definition nFloorShade :: "int \<Rightarrow> nat" where
  "nFloorShade y =
     (let b = fsub 1 (fdiv (fsub (fl32 (of_int y)) (fdiv (fl32 (of_int nScreenHeight)) 2))
                           (fdiv (fl32 (of_int nScreenHeight)) 2))
      in if b < fl64 (25 / 100) then of_char (CHR ''#'')
         else if b < fl64 (5 / 10) then of_char (CHR ''x'')
         else if b < fl64 (75 / 100) then of_char (CHR ''.'')
         else if b < fl64 (9 / 10) then of_char (CHR ''~'')
         else of_char (CHR '' ''))"

text \<open>What the body of the inner loop stores for row \<open>y\<close>.\<close>

definition rowGlyph :: "real \<Rightarrow> bool \<Rightarrow> int \<Rightarrow> nat" where
  "rowGlyph d bnd y =
     (if y < nCeiling d then of_char (CHR '' '')
      else if y \<ge> nCeiling d \<and> y < nFloor d then nShade d bnd
      else nFloorShade y)"

text \<open>The frame buffer: the glyph stored at each index.\<close>

type_synonym screen = "nat \<Rightarrow> nat"

definition fillColumn :: "int \<Rightarrow> real \<Rightarrow> bool \<Rightarrow> screen \<Rightarrow> screen" where
  "fillColumn x d bnd scr =
     fold (\<lambda>y s. s(nat (y * nScreenWidth + x) := rowGlyph d bnd y))
          [0 .. nScreenHeight - 1] scr"

definition renderColumn :: "libm \<Rightarrow> player \<Rightarrow> int \<Rightarrow> screen \<Rightarrow> screen option" where
  "renderColumn L P x scr =
     (case castRay L P x of
        None \<Rightarrow> None
      | Some r \<Rightarrow> Some (fillColumn x (fDistanceToWall r) (bBoundary r) scr))"

fun columns :: "libm \<Rightarrow> player \<Rightarrow> int list \<Rightarrow> screen \<Rightarrow> screen option" where
  "columns L P [] scr = Some scr"
| "columns L P (x # xs) scr =
     (case renderColumn L P x scr of
        None \<Rightarrow> None
      | Some scr' \<Rightarrow> columns L P xs scr')"

definition RenderScene :: "libm \<Rightarrow> player \<Rightarrow> screen \<Rightarrow> real \<Rightarrow> screen option" where
  "RenderScene L P scr fElapsedTime = columns L P [0 .. nScreenWidth - 1] scr"

section \<open>Quantities used in the statements\<close>

text \<open>The distance after \<open>n\<close> steps of the march that found only open cells.\<close>

definition dseq :: "nat \<Rightarrow> real" where
  "dseq n = ((\<lambda>d. fadd d (fl32 (1 / 10))) ^^ n) 0"

text \<open>What the \<open>k\<close>-th iteration of the march samples.\<close>

datatype cell = OutOfMap | WallCell | OpenCell

definition cell_at :: "real \<Rightarrow> real \<Rightarrow> real \<Rightarrow> real \<Rightarrow> real \<Rightarrow> cell" where
  "cell_at px py fEyeX fEyeY d =
     (let nTestX = c_int (fadd px (fmul fEyeX d));
          nTestY = c_int (fadd py (fmul fEyeY d))
      in if nTestX < 0 \<or> nTestX \<ge> nMapWidth \<or> nTestY < 0 \<or> nTestY \<ge> nMapHeight
         then OutOfMap
         else if map_w ! nat (nTestY * nMapWidth + nTestX) = CHR ''#'' then WallCell
         else OpenCell)"

definition sample :: "real \<Rightarrow> real \<Rightarrow> real \<Rightarrow> real \<Rightarrow> nat \<Rightarrow> cell" where
  "sample px py fEyeX fEyeY k = cell_at px py fEyeX fEyeY (dseq k)"

text \<open>The loop continues from state \<open>s\<close>.\<close>

definition continues :: "ray \<Rightarrow> bool" where
  "continues s \<longleftrightarrow> \<not> bHitWall s \<and> fDistanceToWall s < fDepth"

text \<open>Checkers that the simplifier runs on a closed input: \<open>n\<close> steps from \<open>d\<close> stay
  below the depth, and \<open>n\<close> steps from \<open>d\<close> sample open cells only.\<close>

fun open_run :: "real \<Rightarrow> real \<Rightarrow> real \<Rightarrow> real \<Rightarrow> nat \<Rightarrow> real \<Rightarrow> bool" where
  "open_run px py fEyeX fEyeY 0 d = True"
| "open_run px py fEyeX fEyeY (Suc n) d =
     (cell_at px py fEyeX fEyeY (fadd d (fl32 (1 / 10))) = OpenCell \<and>
      open_run px py fEyeX fEyeY n (fadd d (fl32 (1 / 10))))"

fun all_below :: "nat \<Rightarrow> real \<Rightarrow> bool" where
  "all_below 0 d = True"
| "all_below (Suc n) d = (d < fDepth \<and> all_below n (fadd d (fl32 (1 / 10))))"

text \<open>\<open>n\<close> steps from \<open>d\<close> never land on one of the values \<open>vs\<close>.\<close>

fun steps_avoid :: "real list \<Rightarrow> nat \<Rightarrow> real \<Rightarrow> bool" where
  "steps_avoid vs 0 d = True"
| "steps_avoid vs (Suc n) d =
     (fadd d (fl32 (1 / 10)) \<notin> set vs \<and> steps_avoid vs n (fadd d (fl32 (1 / 10))))"

text \<open>
  The rows of a column by the branch of the inner loop that writes them, for a column
  with distance \<open>d\<close>.
\<close>

definition screenRows :: "int set" where
  "screenRows = {0 ..< nScreenHeight}"

definition ceilingRows :: "real \<Rightarrow> int set" where
  "ceilingRows d = {y \<in> screenRows. y < nCeiling d}"

definition wallRows :: "real \<Rightarrow> int set" where
  "wallRows d = {y \<in> screenRows. \<not> y < nCeiling d \<and> (y \<ge> nCeiling d \<and> y < nFloor d)}"

definition floorRows :: "real \<Rightarrow> int set" where
  "floorRows d = {y \<in> screenRows. \<not> y < nCeiling d \<and> \<not> (y \<ge> nCeiling d \<and> y < nFloor d)}"

text \<open>The index of the frame buffer that the inner loop writes for column \<open>x\<close>, row
  \<open>y\<close>.\<close>

definition cellIndex :: "int \<Rightarrow> int \<Rightarrow> nat" where
  "cellIndex x y = nat (y * nScreenWidth + x)"

section \<open>Properties of the rounding\<close>
subsection \<open>Rounding to the nearest integer\<close>

lemma rhe_bounds: "\<lfloor>x\<rfloor> \<le> rhe x \<and> rhe x \<le> \<lfloor>x\<rfloor> + 1"
  by (simp add: rhe_def Let_def)

lemma rhe_of_int: "rhe (of_int n) = n"
  by (simp add: rhe_def)

lemma rhe_mono: "x \<le> y \<Longrightarrow> rhe x \<le> rhe y"
proof -
  assume xy: "x \<le> y"
  show ?thesis
  proof (cases "\<lfloor>x\<rfloor> = \<lfloor>y\<rfloor>")
    case True
    with xy have "x - of_int \<lfloor>x\<rfloor> \<le> y - of_int \<lfloor>y\<rfloor>" by simp
    with True show ?thesis by (auto simp: rhe_def Let_def)
  next
    case False
    with xy have "\<lfloor>x\<rfloor> < \<lfloor>y\<rfloor>" using floor_mono [of x y] by simp
    then have "rhe x \<le> \<lfloor>y\<rfloor>" using rhe_bounds [of x] by simp
    with rhe_bounds [of y] show ?thesis by simp
  qed
qed

lemma rhe_minus: "rhe (- x) = - rhe x"
proof (cases "x \<in> \<int>")
  case True
  then obtain n where "x = of_int n" by (auto elim: Ints_cases)
  then show ?thesis
    using rhe_of_int [of n] rhe_of_int [of "- n"] by simp
next
  case False
  then have ne: "x \<noteq> of_int \<lfloor>x\<rfloor>"
    by (metis Ints_of_int)
  then have f: "\<lfloor>- x\<rfloor> = - \<lfloor>x\<rfloor> - 1"
    by (simp add: floor_minus ceiling_altdef)
  have lt: "of_int \<lfloor>x\<rfloor> < x"
    using ne of_int_floor_le [of x] by (auto simp: order_less_le)
  show ?thesis
    using lt by (auto simp: rhe_def Let_def f)
qed

subsection \<open>The exponent\<close>

lemma expo_search_range:
  "lo \<le> hi \<Longrightarrow> lo \<le> expo_search lo hi r \<and> expo_search lo hi r \<le> hi"
proof (induction lo hi r rule: expo_search.induct)
  case (1 lo hi r)
  show ?case
  proof (cases "hi \<le> lo")
    case True
    with "1.prems" show ?thesis by (simp add: expo_search.simps)
  next
    case False
    define mid where "mid = (lo + hi + 1) div 2"
    have m: "lo < mid" "mid \<le> hi" using False by (simp_all add: mid_def)
    show ?thesis
    proof (cases "2 powi mid \<le> r")
      case True
      have "mid \<le> expo_search mid hi r \<and> expo_search mid hi r \<le> hi"
        using "1.IH"(1) [OF False mid_def True] m by simp
      then show ?thesis
        using False True m by (subst (1 2) expo_search.simps) (simp add: mid_def [symmetric])
    next
      case F2: False
      have "lo \<le> expo_search lo (mid - 1) r \<and> expo_search lo (mid - 1) r \<le> mid - 1"
        using "1.IH"(2) [OF False mid_def F2] m by simp
      then show ?thesis
        using False F2 m by (subst (1 2) expo_search.simps) (simp add: mid_def [symmetric])
    qed
  qed
qed

lemma expo_search_lower:
  "lo \<le> hi \<Longrightarrow> 2 powi lo \<le> r \<or> expo_search lo hi r \<noteq> lo \<Longrightarrow>
   2 powi (expo_search lo hi r) \<le> r"
proof (induction lo hi r rule: expo_search.induct)
  case (1 lo hi r)
  show ?case
  proof (cases "hi \<le> lo")
    case True
    with "1.prems" show ?thesis by (simp add: expo_search.simps)
  next
    case False
    define mid where "mid = (lo + hi + 1) div 2"
    have m: "lo < mid" "mid \<le> hi" using False by (simp_all add: mid_def)
    show ?thesis
    proof (cases "2 powi mid \<le> r")
      case True
      have e: "expo_search lo hi r = expo_search mid hi r"
        using False True by (subst expo_search.simps) (simp add: mid_def [symmetric])
      have "2 powi (expo_search mid hi r) \<le> r"
        using "1.IH"(1) [OF False mid_def True] m True by simp
      then show ?thesis by (simp add: e)
    next
      case F2: False
      have e: "expo_search lo hi r = expo_search lo (mid - 1) r"
        using False F2 by (subst expo_search.simps) (simp add: mid_def [symmetric])
      have "2 powi (expo_search lo (mid - 1) r) \<le> r"
        using "1.IH"(2) [OF False mid_def F2] m "1.prems"(2) by (simp add: e)
      then show ?thesis by (simp add: e)
    qed
  qed
qed

lemma expo_search_upper:
  "lo \<le> hi \<Longrightarrow> r < 2 powi (hi + 1) \<or> expo_search lo hi r \<noteq> hi \<Longrightarrow>
   r < 2 powi (expo_search lo hi r + 1)"
proof (induction lo hi r rule: expo_search.induct)
  case (1 lo hi r)
  show ?case
  proof (cases "hi \<le> lo")
    case True
    with "1.prems" show ?thesis by (simp add: expo_search.simps)
  next
    case False
    define mid where "mid = (lo + hi + 1) div 2"
    have m: "lo < mid" "mid \<le> hi" using False by (simp_all add: mid_def)
    show ?thesis
    proof (cases "2 powi mid \<le> r")
      case True
      have e: "expo_search lo hi r = expo_search mid hi r"
        using False True by (subst expo_search.simps) (simp add: mid_def [symmetric])
      have "r < 2 powi (expo_search mid hi r + 1)"
        using "1.IH"(1) [OF False mid_def True] m "1.prems"(2) by (simp add: e)
      then show ?thesis by (simp add: e)
    next
      case F2: False
      have e: "expo_search lo hi r = expo_search lo (mid - 1) r"
        using False F2 by (subst expo_search.simps) (simp add: mid_def [symmetric])
      have "r < 2 powi (expo_search lo (mid - 1) r + 1)"
        using "1.IH"(2) [OF False mid_def F2] m F2 by simp
      then show ?thesis by (simp add: e)
    qed
  qed
qed

lemma expo_search_mono:
  assumes "lo \<le> hi" "r \<le> s"
  shows "expo_search lo hi r \<le> expo_search lo hi s"
proof (rule ccontr)
  assume "\<not> ?thesis"
  then have lt: "expo_search lo hi s < expo_search lo hi r" by simp
  have "expo_search lo hi r \<noteq> lo"
    using lt expo_search_range [OF assms(1), of s] by simp
  then have a: "2 powi (expo_search lo hi r) \<le> r"
    using expo_search_lower [OF assms(1)] by blast
  have "expo_search lo hi s \<noteq> hi"
    using lt expo_search_range [OF assms(1), of r] by simp
  then have b: "s < 2 powi (expo_search lo hi s + 1)"
    using expo_search_upper [OF assms(1)] by blast
  have "(2::real) powi (expo_search lo hi s + 1) \<le> 2 powi (expo_search lo hi r)"
    using lt by (intro power_int_increasing) simp_all
  with a b assms(2) show False by simp
qed

lemma expo_search_eq:
  assumes "lo \<le> e" "e \<le> hi" "2 powi e \<le> r" "r < 2 powi (e + 1)"
  shows "expo_search lo hi r = e"
proof -
  have lh: "lo \<le> hi" using assms by simp
  have "\<not> expo_search lo hi r < e"
  proof
    assume lt: "expo_search lo hi r < e"
    then have "expo_search lo hi r \<noteq> hi" using assms(2) by simp
    then have "r < 2 powi (expo_search lo hi r + 1)"
      using expo_search_upper [OF lh] by blast
    moreover have "(2::real) powi (expo_search lo hi r + 1) \<le> 2 powi e"
      using lt by (intro power_int_increasing) simp_all
    ultimately show False using assms(3) by simp
  qed
  moreover have "\<not> e < expo_search lo hi r"
  proof
    assume lt: "e < expo_search lo hi r"
    then have "expo_search lo hi r \<noteq> lo" using assms(1) by simp
    then have "2 powi (expo_search lo hi r) \<le> r"
      using expo_search_lower [OF lh] by blast
    moreover have "(2::real) powi (e + 1) \<le> 2 powi (expo_search lo hi r)"
      using lt by (intro power_int_increasing) simp_all
    ultimately show False using assms(4) by simp
  qed
  ultimately show ?thesis by simp
qed

subsection \<open>Rounding is monotone\<close>

lemma round_bin_minus: "round_bin p lo hi (- r) = - round_bin p lo hi r"
  by (simp add: round_bin_def Let_def rhe_minus)

lemma round_bin_nonneg: "0 \<le> r \<Longrightarrow> 0 \<le> round_bin p lo hi r"
proof -
  assume "0 \<le> r"
  then have "0 \<le> r / 2 powi (expo_search lo hi \<bar>r\<bar> - int p + 1)" by simp
  from rhe_mono [OF this] have "0 \<le> rhe (r / 2 powi (expo_search lo hi \<bar>r\<bar> - int p + 1))"
    using rhe_of_int [of 0] by simp
  then show ?thesis by (simp add: round_bin_def Let_def)
qed

lemma round_bin_mono_pos:
  assumes lh: "lo \<le> hi" and p: "1 \<le> p" and r: "0 \<le> r" and rs: "r \<le> s"
  shows "round_bin p lo hi r \<le> round_bin p lo hi s"
proof -
  define er where "er = expo_search lo hi r"
  define es where "es = expo_search lo hi s"
  define qr :: real where "qr = 2 powi (er - int p + 1)"
  define qs :: real where "qs = 2 powi (es - int p + 1)"
  have s: "0 \<le> s" using r rs by simp
  have Rr: "round_bin p lo hi r = of_int (rhe (r / qr)) * qr"
    using r by (simp add: round_bin_def Let_def qr_def er_def)
  have Rs: "round_bin p lo hi s = of_int (rhe (s / qs)) * qs"
    using s by (simp add: round_bin_def Let_def qs_def es_def)
  have qr0: "0 < qr" and qs0: "0 < qs" by (simp_all add: qr_def qs_def)
  have le: "er \<le> es" unfolding er_def es_def by (rule expo_search_mono [OF lh rs])
  show ?thesis
  proof (cases "er = es")
    case True
    then have q: "qr = qs" by (simp add: qr_def qs_def)
    have "r / qs \<le> s / qs" using rs qs0 by (simp add: divide_right_mono)
    from rhe_mono [OF this] have "(of_int (rhe (r / qs)) :: real) \<le> of_int (rhe (s / qs))"
      by simp
    then show ?thesis using qs0 by (simp add: Rr Rs q mult_right_mono)
  next
    case False
    with le have lt: "er < es" by simp
    have "er \<noteq> hi" using lt expo_search_range [OF lh, of s] by (simp add: es_def)
    then have ru: "r < 2 powi (er + 1)"
      using expo_search_upper [OF lh, of r] by (simp add: er_def)
    have "es \<noteq> lo" using lt expo_search_range [OF lh, of r] by (simp add: er_def)
    then have sl: "2 powi es \<le> s"
      using expo_search_lower [OF lh, of s] by (simp add: es_def)
    have e1: "(2::real) powi (er + 1) = 2 ^ p * qr"
    proof -
      have "(2::real) powi (er + 1) = 2 powi (int p + (er - int p + 1))" by simp
      also have "\<dots> = 2 powi (int p) * 2 powi (er - int p + 1)"
        by (rule power_int_add) simp
      finally show ?thesis by (simp add: qr_def)
    qed
    have e2: "(2::real) powi es = 2 ^ (p - 1) * qs"
    proof -
      have "(2::real) powi es = 2 powi (int (p - 1) + (es - int p + 1))"
        using p by (simp add: of_nat_diff)
      also have "\<dots> = 2 powi (int (p - 1)) * 2 powi (es - int p + 1)"
        by (rule power_int_add) simp
      finally show ?thesis by (simp add: qs_def)
    qed
    have "r / qr \<le> 2 ^ p" using ru qr0 by (simp add: e1 pos_divide_le_eq)
    then have "r / qr \<le> of_int (2 ^ p)" by simp
    from rhe_mono [OF this] have "rhe (r / qr) \<le> 2 ^ p" by (simp only: rhe_of_int)
    then have "(of_int (rhe (r / qr)) :: real) \<le> 2 ^ p" 
      by (metis of_int_le_iff of_int_numeral of_int_power)
    then have a: "round_bin p lo hi r \<le> 2 powi (er + 1)"
      using qr0 by (simp add: Rr e1 mult_right_mono)
    have "2 ^ (p - 1) \<le> s / qs" using sl qs0 by (simp add: e2 pos_le_divide_eq)
    then have "of_int (2 ^ (p - 1)) \<le> s / qs" by simp
    from rhe_mono [OF this] have "2 ^ (p - 1) \<le> rhe (s / qs)" by (simp only: rhe_of_int)
    then have "(2 ^ (p - 1) :: real) \<le> of_int (rhe (s / qs))"
      by (metis of_int_le_iff of_int_numeral of_int_power)
    then have b: "2 powi es \<le> round_bin p lo hi s"
      using qs0 by (simp add: Rs e2 mult_right_mono)
    have "(2::real) powi (er + 1) \<le> 2 powi es"
      using lt by (intro power_int_increasing) simp_all
    with a b show ?thesis by simp
  qed
qed

lemma round_bin_mono:
  assumes lh: "lo \<le> hi" and p: "1 \<le> p" and rs: "r \<le> s"
  shows "round_bin p lo hi r \<le> round_bin p lo hi s"
proof (cases "0 \<le> r")
  case True
  then show ?thesis by (rule round_bin_mono_pos [OF lh p _ rs])
next
  case F: False
  show ?thesis
  proof (cases "0 \<le> s")
    case True
    have "0 \<le> round_bin p lo hi (- r)" using F by (intro round_bin_nonneg) simp
    then have "round_bin p lo hi r \<le> 0" by (simp add: round_bin_minus)
    with round_bin_nonneg [OF True, of p lo hi] show ?thesis by simp
  next
    case False
    then have "0 \<le> - s" "- s \<le> - r" using rs by simp_all
    from round_bin_mono_pos [OF lh p this]
    show ?thesis by (simp add: round_bin_minus)
  qed
qed

lemma fl32_mono: "r \<le> s \<Longrightarrow> fl32 r \<le> fl32 s"
  unfolding fl32_def by (rule round_bin_mono) simp_all

lemma round_bin_exact:
  assumes "lo \<le> e" "e \<le> hi" "2 powi e \<le> \<bar>r\<bar>" "\<bar>r\<bar> < 2 powi (e + 1)"
  shows "round_bin p lo hi r = of_int (rhe (r / 2 powi (e - int p + 1))) * 2 powi (e - int p + 1)"
  by (simp add: round_bin_def Let_def expo_search_eq [OF assms])

section \<open>Evaluation of the arithmetic\<close>

text \<open>
  The rounding functions unfold on numerals only, so that the simplifier evaluates a
  closed expression and leaves an open one alone.
\<close>

lemmas expo_search_eval =
  expo_search.simps [unfolded Let_def, where r = 0]
  expo_search.simps [unfolded Let_def, where r = 1]
  expo_search.simps [unfolded Let_def, where r = "numeral a" for a]
  expo_search.simps [unfolded Let_def, where r = "1 / numeral b" for b]
  expo_search.simps [unfolded Let_def, where r = "numeral a / numeral b" for a b]

lemmas rhe_eval =
  rhe_def [unfolded Let_def, where x = 0]
  rhe_def [unfolded Let_def, where x = 1]
  rhe_def [unfolded Let_def, where x = "- 1"]
  rhe_def [unfolded Let_def, where x = "numeral a" for a]
  rhe_def [unfolded Let_def, where x = "- numeral a" for a]
  rhe_def [unfolded Let_def, where x = "1 / numeral b" for b]
  rhe_def [unfolded Let_def, where x = "- (1 / numeral b)" for b]
  rhe_def [unfolded Let_def, where x = "numeral a / numeral b" for a b]
  rhe_def [unfolded Let_def, where x = "- (numeral a / numeral b)" for a b]

lemmas round_bin_eval =
  round_bin_def [unfolded Let_def, where r = 0]
  round_bin_def [unfolded Let_def, where r = 1]
  round_bin_def [unfolded Let_def, where r = "- 1"]
  round_bin_def [unfolded Let_def, where r = "numeral a" for a]
  round_bin_def [unfolded Let_def, where r = "- numeral a" for a]
  round_bin_def [unfolded Let_def, where r = "1 / numeral b" for b]
  round_bin_def [unfolded Let_def, where r = "- (1 / numeral b)" for b]
  round_bin_def [unfolded Let_def, where r = "numeral a / numeral b" for a b]
  round_bin_def [unfolded Let_def, where r = "- (numeral a / numeral b)" for a b]

lemmas fl_eval =
  fadd_def fsub_def fmul_def fdiv_def fl32_def fl64_def round_bin_eval rhe_eval
  expo_search_eval c_int_def

lemma pi_lit_value: "pi_lit = 823549 / 262144"
  by (simp add: pi_lit_def fl_eval)

lemma fl32_0: "fl32 0 = 0"
  by (simp add: fl_eval)

lemma fl32_1: "fl32 1 = 1"
  by (simp add: fl_eval)

lemma step_value: "fl32 (1 / 10) = 13421773 / 134217728"
  by (simp add: fl_eval)

lemma fl32_small_ints: "fl32 40 = 40" "fl32 20 = 20" "fdiv 40 2 = 20"
  by (simp_all add: fl_eval)

lemma ref_libm_at_0: "sinf ref_libm 0 = 0" "cosf ref_libm 0 = 1"
  by (simp_all add: ref_libm_def fl32_0 fl32_1)

lemma map_w_flat:
  "map_w = ''#################..............#####...##..##..##..............##..............##.........#....##..............##....###....#..##..............#####...........##..............##..............##.......#########..............##..............#################''"
  by (simp add: map_w_def)

lemma length_map_w: "length map_w = 256"
  by (simp add: map_w_def)

text \<open>
  Within one binade the rounding is a rounding to a fixed grid. These rules evaluate
  the long runs of the ray march faster than the search for the exponent.
\<close>

lemma fl32_binade:
  assumes "- 126 \<le> e" "e \<le> 127" "2 powi e \<le> \<bar>r\<bar>" "\<bar>r\<bar> < 2 powi (e + 1)"
  shows "fl32 r = of_int (rhe (r / 2 powi (e - 23))) * 2 powi (e - 23)"
  using round_bin_exact [OF assms, of 24] by (simp add: fl32_def)

lemma fl32_binade_m8:
  "1 / 256 \<le> \<bar>r\<bar> \<Longrightarrow> \<bar>r\<bar> < 1 / 128 \<Longrightarrow> fl32 r = of_int (rhe (r * 2147483648)) / 2147483648"
  using fl32_binade [of "- 8" r] by (simp add: power_int_minus_divide)

lemma fl32_binade_m7:
  "1 / 128 \<le> \<bar>r\<bar> \<Longrightarrow> \<bar>r\<bar> < 1 / 64 \<Longrightarrow> fl32 r = of_int (rhe (r * 1073741824)) / 1073741824"
  using fl32_binade [of "- 7" r] by (simp add: power_int_minus_divide)

lemma fl32_binade_m6:
  "1 / 64 \<le> \<bar>r\<bar> \<Longrightarrow> \<bar>r\<bar> < 1 / 32 \<Longrightarrow> fl32 r = of_int (rhe (r * 536870912)) / 536870912"
  using fl32_binade [of "- 6" r] by (simp add: power_int_minus_divide)

lemma fl32_binade_m5:
  "1 / 32 \<le> \<bar>r\<bar> \<Longrightarrow> \<bar>r\<bar> < 1 / 16 \<Longrightarrow> fl32 r = of_int (rhe (r * 268435456)) / 268435456"
  using fl32_binade [of "- 5" r] by (simp add: power_int_minus_divide)

lemma fl32_binade_m4:
  "1 / 16 \<le> \<bar>r\<bar> \<Longrightarrow> \<bar>r\<bar> < 1 / 8 \<Longrightarrow> fl32 r = of_int (rhe (r * 134217728)) / 134217728"
  using fl32_binade [of "- 4" r] by (simp add: power_int_minus_divide)

lemma fl32_binade_m3:
  "1 / 8 \<le> \<bar>r\<bar> \<Longrightarrow> \<bar>r\<bar> < 1 / 4 \<Longrightarrow> fl32 r = of_int (rhe (r * 67108864)) / 67108864"
  using fl32_binade [of "- 3" r] by (simp add: power_int_minus_divide)

lemma fl32_binade_m2:
  "1 / 4 \<le> \<bar>r\<bar> \<Longrightarrow> \<bar>r\<bar> < 1 / 2 \<Longrightarrow> fl32 r = of_int (rhe (r * 33554432)) / 33554432"
  using fl32_binade [of "- 2" r] by (simp add: power_int_minus_divide)

lemma fl32_binade_m1:
  "1 / 2 \<le> \<bar>r\<bar> \<Longrightarrow> \<bar>r\<bar> < 1 \<Longrightarrow> fl32 r = of_int (rhe (r * 16777216)) / 16777216"
  using fl32_binade [of "- 1" r] by (simp add: power_int_minus_divide)

lemma fl32_binade_0:
  "1 \<le> \<bar>r\<bar> \<Longrightarrow> \<bar>r\<bar> < 2 \<Longrightarrow> fl32 r = of_int (rhe (r * 8388608)) / 8388608"
  using fl32_binade [of 0 r] by (simp add: power_int_minus_divide)

lemma fl32_binade_1:
  "2 \<le> \<bar>r\<bar> \<Longrightarrow> \<bar>r\<bar> < 4 \<Longrightarrow> fl32 r = of_int (rhe (r * 4194304)) / 4194304"
  using fl32_binade [of 1 r] by (simp add: power_int_minus_divide)

lemma fl32_binade_2:
  "4 \<le> \<bar>r\<bar> \<Longrightarrow> \<bar>r\<bar> < 8 \<Longrightarrow> fl32 r = of_int (rhe (r * 2097152)) / 2097152"
  using fl32_binade [of 2 r] by (simp add: power_int_minus_divide)

lemma fl32_binade_3:
  "8 \<le> \<bar>r\<bar> \<Longrightarrow> \<bar>r\<bar> < 16 \<Longrightarrow> fl32 r = of_int (rhe (r * 1048576)) / 1048576"
  using fl32_binade [of 3 r] by (simp add: power_int_minus_divide)

lemma fl32_binade_4:
  "16 \<le> \<bar>r\<bar> \<Longrightarrow> \<bar>r\<bar> < 32 \<Longrightarrow> fl32 r = of_int (rhe (r * 524288)) / 524288"
  using fl32_binade [of 4 r] by (simp add: power_int_minus_divide)

lemmas fl_fast =
  fadd_def fsub_def fmul_def fdiv_def fl32_0 rhe_eval c_int_def
  fl32_binade_m8 fl32_binade_m7 fl32_binade_m6 fl32_binade_m5
  fl32_binade_m4 fl32_binade_m3 fl32_binade_m2 fl32_binade_m1
  fl32_binade_0 fl32_binade_1 fl32_binade_2 fl32_binade_3
  fl32_binade_4

section \<open>The ray march\<close>

lemma all_below_160: "all_below 160 0"
  by (simp add: eval_nat_numeral fDepth_def step_value fl_fast)

lemma dseq_0: "dseq 0 = 0"
  by (simp add: dseq_def)

lemma dseq_Suc: "dseq (Suc n) = fadd (dseq n) (fl32 (1 / 10))"
  by (simp add: dseq_def)

lemma dseq_160: "dseq 160 = 8388621 / 524288"
  by (simp add: eval_nat_numeral dseq_0 dseq_Suc step_value fl_fast)

lemma all_below_iter:
  "all_below n d \<Longrightarrow> k < n \<Longrightarrow> ((\<lambda>d. fadd d (fl32 (1 / 10))) ^^ k) d < fDepth"
proof (induction n arbitrary: d k)
  case 0
  then show ?case by simp
next
  case (Suc n)
  show ?case
  proof (cases k)
    case 0
    with Suc.prems show ?thesis by simp
  next
    case (Suc j)
    with Suc.prems have "j < n" and "all_below n (fadd d (fl32 (1 / 10)))" by simp_all
    from Suc.IH [OF this(2) this(1)] show ?thesis
      by (simp add: Suc funpow_Suc_right del: funpow.simps)
  qed
qed

lemma dseq_below: "k < 160 \<Longrightarrow> dseq k < fDepth"
  unfolding dseq_def by (rule all_below_iter [OF all_below_160])

lemma dseq_160_above: "fDepth \<le> dseq 160"
  by (simp add: dseq_160 fDepth_def)

lemma dseq_le_last: "k \<le> 160 \<Longrightarrow> dseq k \<le> 8388621 / 524288"
proof (cases "k = 160")
  case True
  then show ?thesis by (simp add: dseq_160)
next
  case False
  assume "k \<le> 160"
  with False have "k < 160" by simp
  from dseq_below [OF this] show ?thesis by (simp add: fDepth_def)
qed

lemma rayStep_cases:
  "bHitWall (rayStep L px py ex ey s) \<or>
   rayStep L px py ex ey s = s\<lparr>fDistanceToWall := fadd (fDistanceToWall s) (fl32 (1 / 10))\<rparr>"
  by (simp add: rayStep_def Let_def)

lemma rayStep_cell:
  "rayStep L px py ex ey s =
     (case cell_at px py ex ey (fadd (fDistanceToWall s) (fl32 (1 / 10))) of
        OutOfMap \<Rightarrow> s\<lparr>fDistanceToWall := fDepth, bHitWall := True\<rparr>
      | WallCell \<Rightarrow>
          s\<lparr>fDistanceToWall := fadd (fDistanceToWall s) (fl32 (1 / 10)), bHitWall := True,
            bBoundary := wallBoundary L px py ex ey
              (c_int (fadd px (fmul ex (fadd (fDistanceToWall s) (fl32 (1 / 10))))))
              (c_int (fadd py (fmul ey (fadd (fDistanceToWall s) (fl32 (1 / 10))))))\<rparr>
      | OpenCell \<Rightarrow> s\<lparr>fDistanceToWall := fadd (fDistanceToWall s) (fl32 (1 / 10))\<rparr>)"
  by (simp add: rayStep_def cell_at_def Let_def)

lemma rayLoop_exit:
  "\<not> continues s \<Longrightarrow> rayLoop L px py ex ey s = Some s"
  by (subst rayLoop.simps) (auto simp: continues_def)

lemma rayLoop_iter:
  "(\<And>m. m < n \<Longrightarrow> continues ((rayStep L px py ex ey ^^ m) s)) \<Longrightarrow>
   rayLoop L px py ex ey s = rayLoop L px py ex ey ((rayStep L px py ex ey ^^ n) s)"
proof (induction n)
  case 0
  show ?case by simp
next
  case (Suc n)
  have a: "rayLoop L px py ex ey s = rayLoop L px py ex ey ((rayStep L px py ex ey ^^ n) s)"
    using Suc.prems by (intro Suc.IH) simp
  have b: "continues ((rayStep L px py ex ey ^^ n) s)"
    using Suc.prems [of n] by simp
  show ?case
    by (subst a, subst rayLoop.simps) (use b in \<open>simp add: continues_def\<close>)
qed

text \<open>While only open cells are sampled, the state is the initial one with the distance
  advanced.\<close>

lemma open_prefix:
  "(\<And>j. 1 \<le> j \<Longrightarrow> j \<le> n \<Longrightarrow> sample px py ex ey j = OpenCell) \<Longrightarrow>
   (rayStep L px py ex ey ^^ n) ray0 = ray0\<lparr>fDistanceToWall := dseq n\<rparr>"
proof (induction n)
  case 0
  show ?case by (simp add: ray0_def dseq_0)
next
  case (Suc n)
  have ih: "(rayStep L px py ex ey ^^ n) ray0 = ray0\<lparr>fDistanceToWall := dseq n\<rparr>"
    using Suc.prems by (intro Suc.IH) simp
  have "sample px py ex ey (Suc n) = OpenCell"
    using Suc.prems [of "Suc n"] by simp
  then have c: "cell_at px py ex ey (fadd (dseq n) (fl32 (1 / 10))) = OpenCell"
    by (simp add: sample_def dseq_Suc)
  have "(rayStep L px py ex ey ^^ Suc n) ray0 =
        rayStep L px py ex ey (ray0\<lparr>fDistanceToWall := dseq n\<rparr>)"
    by (simp only: funpow.simps o_apply ih)
  also have "\<dots> = ray0\<lparr>fDistanceToWall := dseq (Suc n)\<rparr>"
    by (simp add: rayStep_cell c dseq_Suc)
  finally show ?case .
qed

lemma open_prefix_continues:
  assumes "\<And>j. 1 \<le> j \<Longrightarrow> j \<le> n \<Longrightarrow> sample px py ex ey j = OpenCell"
    and "m \<le> n" and "m < 160"
  shows "continues ((rayStep L px py ex ey ^^ m) ray0)"
proof -
  have "(rayStep L px py ex ey ^^ m) ray0 = ray0\<lparr>fDistanceToWall := dseq m\<rparr>"
    using assms(1,2) by (intro open_prefix) simp
  then show ?thesis
    using dseq_below [OF assms(3)] by (simp add: continues_def ray0_def)
qed

text \<open>The march up to its first sample that is not an open cell.\<close>

lemma first_event:
  assumes k: "1 \<le> k" "k \<le> 160"
    and op: "\<And>j. 1 \<le> j \<Longrightarrow> j < k \<Longrightarrow> sample px py ex ey j = OpenCell"
  shows "rayLoop L px py ex ey ray0 =
         rayLoop L px py ex ey (rayStep L px py ex ey (ray0\<lparr>fDistanceToWall := dseq (k - 1)\<rparr>))"
proof -
  obtain n where n: "k = Suc n" using k(1) by (cases k) simp_all
  have op': "\<And>j. 1 \<le> j \<Longrightarrow> j \<le> n \<Longrightarrow> sample px py ex ey j = OpenCell"
    using op n by simp
  have st: "(rayStep L px py ex ey ^^ n) ray0 = ray0\<lparr>fDistanceToWall := dseq n\<rparr>"
    by (rule open_prefix [OF op'])
  have "rayLoop L px py ex ey ray0 = rayLoop L px py ex ey ((rayStep L px py ex ey ^^ k) ray0)"
  proof (rule rayLoop_iter)
    fix m assume "m < k"
    then have "m \<le> n" "m < 160" using n k(2) by simp_all
    then show "continues ((rayStep L px py ex ey ^^ m) ray0)"
      using open_prefix_continues [OF op'] by blast
  qed
  then show ?thesis by (simp add: n st)
qed

lemma wall_event:
  assumes k: "1 \<le> k" "k \<le> 160"
    and op: "\<And>j. 1 \<le> j \<Longrightarrow> j < k \<Longrightarrow> sample px py ex ey j = OpenCell"
    and w: "sample px py ex ey k = WallCell"
  shows "\<exists>r. rayLoop L px py ex ey ray0 = Some r \<and> bHitWall r \<and> fDistanceToWall r = dseq k"
proof -
  obtain n where n: "k = Suc n" using k(1) by (cases k) simp_all
  have c: "cell_at px py ex ey (fadd (dseq n) (fl32 (1 / 10))) = WallCell"
    using w by (simp add: sample_def n dseq_Suc)
  have "rayLoop L px py ex ey ray0 =
        rayLoop L px py ex ey (rayStep L px py ex ey (ray0\<lparr>fDistanceToWall := dseq n\<rparr>))"
    using first_event [OF k op] by (simp add: n)
  also have "\<dots> = Some (ray0\<lparr>fDistanceToWall := dseq k, bHitWall := True,
      bBoundary := wallBoundary L px py ex ey
        (c_int (fadd px (fmul ex (dseq k)))) (c_int (fadd py (fmul ey (dseq k))))\<rparr>)"
    by (simp add: rayStep_cell c rayLoop_exit continues_def n dseq_Suc)
  finally show ?thesis by simp
qed

lemma wall_event_state:
  assumes k: "1 \<le> k" "k \<le> 160"
    and op: "\<And>j. 1 \<le> j \<Longrightarrow> j < k \<Longrightarrow> sample px py ex ey j = OpenCell"
    and w: "sample px py ex ey k = WallCell"
  shows "rayLoop L px py ex ey ray0 =
         Some \<lparr>fDistanceToWall = dseq k, bHitWall = True,
               bBoundary = wallBoundary L px py ex ey
                 (c_int (fadd px (fmul ex (dseq k)))) (c_int (fadd py (fmul ey (dseq k))))\<rparr>"
proof -
  obtain n where n: "k = Suc n" using k(1) by (cases k) simp_all
  have c: "cell_at px py ex ey (fadd (dseq n) (fl32 (1 / 10))) = WallCell"
    using w by (simp add: sample_def n dseq_Suc)
  have "rayLoop L px py ex ey ray0 =
        rayLoop L px py ex ey (rayStep L px py ex ey (ray0\<lparr>fDistanceToWall := dseq n\<rparr>))"
    using first_event [OF k op] by (simp add: n)
  also have "\<dots> = Some (ray0\<lparr>fDistanceToWall := dseq k, bHitWall := True,
      bBoundary := wallBoundary L px py ex ey
        (c_int (fadd px (fmul ex (dseq k)))) (c_int (fadd py (fmul ey (dseq k))))\<rparr>)"
    by (simp add: rayStep_cell c rayLoop_exit continues_def n dseq_Suc)
  finally show ?thesis by (simp add: ray0_def)
qed

lemma out_event:
  assumes k: "1 \<le> k" "k \<le> 160"
    and op: "\<And>j. 1 \<le> j \<Longrightarrow> j < k \<Longrightarrow> sample px py ex ey j = OpenCell"
    and w: "sample px py ex ey k = OutOfMap"
  shows "rayLoop L px py ex ey ray0 =
         Some \<lparr>fDistanceToWall = fDepth, bHitWall = True, bBoundary = False\<rparr>"
proof -
  obtain n where n: "k = Suc n" using k(1) by (cases k) simp_all
  have c: "cell_at px py ex ey (fadd (dseq n) (fl32 (1 / 10))) = OutOfMap"
    using w by (simp add: sample_def n dseq_Suc)
  have "rayLoop L px py ex ey ray0 =
        rayLoop L px py ex ey (rayStep L px py ex ey (ray0\<lparr>fDistanceToWall := dseq n\<rparr>))"
    using first_event [OF k op] by (simp add: n)
  also have "\<dots> = Some (ray0\<lparr>fDistanceToWall := fDepth, bHitWall := True\<rparr>)"
    by (simp add: rayStep_cell c rayLoop_exit continues_def)
  finally show ?thesis by (simp add: ray0_def)
qed

lemma march_state:
  "(\<And>j. j \<le> m \<Longrightarrow> continues ((rayStep L px py ex ey ^^ j) ray0)) \<Longrightarrow>
   (rayStep L px py ex ey ^^ m) ray0 = ray0\<lparr>fDistanceToWall := dseq m\<rparr>"
proof (induction m)
  case 0
  show ?case by (simp add: ray0_def dseq_0)
next
  case (Suc m)
  have ih: "(rayStep L px py ex ey ^^ m) ray0 = ray0\<lparr>fDistanceToWall := dseq m\<rparr>"
    using Suc.prems by (intro Suc.IH) simp
  have st: "(rayStep L px py ex ey ^^ Suc m) ray0 =
        rayStep L px py ex ey (ray0\<lparr>fDistanceToWall := dseq m\<rparr>)"
    by (simp only: funpow.simps o_apply ih)
  have "continues ((rayStep L px py ex ey ^^ Suc m) ray0)"
    using Suc.prems [of "Suc m"] by simp
  then have "\<not> bHitWall (rayStep L px py ex ey (ray0\<lparr>fDistanceToWall := dseq m\<rparr>))"
    by (simp only: st continues_def) simp
  with rayStep_cases [of L px py ex ey "ray0\<lparr>fDistanceToWall := dseq m\<rparr>"]
  have "rayStep L px py ex ey (ray0\<lparr>fDistanceToWall := dseq m\<rparr>) =
        ray0\<lparr>fDistanceToWall := dseq (Suc m)\<rparr>"
    by (simp add: dseq_Suc)
  with st show ?case by simp
qed

lemma march_stops: "\<exists>m\<le>160. \<not> continues ((rayStep L px py ex ey ^^ m) ray0)"
proof (rule ccontr)
  assume "\<not> ?thesis"
  then have all: "\<And>j. j \<le> 160 \<Longrightarrow> continues ((rayStep L px py ex ey ^^ j) ray0)"
    by blast
  have "(rayStep L px py ex ey ^^ 160) ray0 = ray0\<lparr>fDistanceToWall := dseq 160\<rparr>"
    by (rule march_state) (rule all)
  moreover have "continues ((rayStep L px py ex ey ^^ 160) ray0)"
    by (rule all) simp
  ultimately show False
    using dseq_160_above by (simp add: continues_def)
qed

text \<open>The march ends, and the number of its iterations is the first state at which the
  loop condition fails.\<close>

lemma march_least:
  obtains n where "n \<le> 160"
    and "rayLoop L px py ex ey ray0 = Some ((rayStep L px py ex ey ^^ n) ray0)"
    and "\<not> continues ((rayStep L px py ex ey ^^ n) ray0)"
    and "\<And>m. m < n \<Longrightarrow> continues ((rayStep L px py ex ey ^^ m) ray0)"
    and "\<And>m. m < n \<Longrightarrow> fDistanceToWall ((rayStep L px py ex ey ^^ m) ray0) = dseq m"
proof -
  let ?F = "rayStep L px py ex ey"
  let ?P = "\<lambda>m. \<not> continues ((?F ^^ m) ray0)"
  define n where "n = (LEAST m. ?P m)"
  obtain m0 where m0: "m0 \<le> 160" "?P m0"
    using march_stops by blast
  have Pn: "?P n"
    unfolding n_def by (rule LeastI [of ?P, OF m0(2)])
  have "n \<le> m0"
    unfolding n_def by (rule Least_le [of ?P, OF m0(2)])
  with m0(1) have n160: "n \<le> 160" by simp
  have before: "continues ((?F ^^ m) ray0)" if "m < n" for m
    using not_less_Least [of m ?P] that unfolding n_def by blast
  have dist: "fDistanceToWall ((?F ^^ m) ray0) = dseq m" if "m < n" for m
  proof -
    have "(?F ^^ m) ray0 = ray0\<lparr>fDistanceToWall := dseq m\<rparr>"
      by (rule march_state) (use that before in simp)
    then show ?thesis by simp
  qed
  have "rayLoop L px py ex ey ray0 = rayLoop L px py ex ey ((?F ^^ n) ray0)"
    by (rule rayLoop_iter) (rule before)
  also have "\<dots> = Some ((?F ^^ n) ray0)"
    by (rule rayLoop_exit) (rule Pn)
  finally show thesis
    using n160 Pn before dist that by blast
qed

lemma castRay_total: "\<exists>r. castRay L P x = Some r"
  unfolding castRay_def by (rule march_least) blast

lemma first_not_open:
  assumes "1 \<le> k" "sample px py ex ey k \<noteq> OpenCell"
  obtains k' where "1 \<le> k'" "k' \<le> k" "sample px py ex ey k' \<noteq> OpenCell"
    "\<And>j. 1 \<le> j \<Longrightarrow> j < k' \<Longrightarrow> sample px py ex ey j = OpenCell"
proof -
  let ?P = "\<lambda>j. 1 \<le> j \<and> sample px py ex ey j \<noteq> OpenCell"
  define k' where "k' = (LEAST j. ?P j)"
  have Pk: "?P k" using assms by simp
  have a: "?P k'" unfolding k'_def by (rule LeastI [of ?P, OF Pk])
  have b: "k' \<le> k" unfolding k'_def by (rule Least_le [of ?P, OF Pk])
  have c: "sample px py ex ey j = OpenCell" if "1 \<le> j" "j < k'" for j
    using not_less_Least [of j ?P] that unfolding k'_def by blast
  from a b c that show thesis by blast
qed

lemma open_run_sample:
  "open_run px py ex ey n (dseq m) \<Longrightarrow> m < j \<Longrightarrow> j \<le> m + n \<Longrightarrow>
   sample px py ex ey j = OpenCell"
proof (induction n arbitrary: m)
  case 0
  then show ?case by simp
next
  case (Suc n)
  from Suc.prems(1) have c: "cell_at px py ex ey (dseq (Suc m)) = OpenCell"
    and r: "open_run px py ex ey n (dseq (Suc m))"
    by (simp_all add: dseq_Suc)
  show ?case
  proof (cases "j = Suc m")
    case True
    with c show ?thesis by (simp add: sample_def)
  next
    case False
    with Suc.prems(2,3) have "Suc m < j" "j \<le> Suc m + n" by simp_all
    from Suc.IH [OF r this] show ?thesis .
  qed
qed

section \<open>Movement: the revert on collision\<close>

lemmas move_eval =
  MovePlayer_def ref_libm_at_0 fSpeed_def nMapWidth_def map_at_def length_map_w
  map_w_flat Let_def fl_eval

text \<open>
  C1. The claim: whenever the tentative destination cell is a wall, \<open>MovePlayer\<close> leaves
  the position exactly as it was, because it subtracts the displacement it added.
  The subtraction is a second rounded operation and does not always undo the first. With
  the player at \<open>(7.5, 1.9f)\<close>, heading \<open>0\<close>, a frame of \<open>1/32\<close> s and the forward key,
  the displacement in \<open>y\<close> is \<open>5/32\<close>, the tentative position lies in the wall cell
  \<open>(7, 2)\<close> (index \<open>39\<close>), and the position after the call has
  \<open>y = 3984589 / 2097152\<close>, one unit in the last place above the
  \<open>15938355 / 8388608\<close> it started from.
\<close>

theorem move_revert_changes_position:
  "map_at (c_int (fadd (15938355 / 8388608) (fmul (fmul (cosf ref_libm 0) fSpeed) (1 / 32)))
             * nMapWidth
           + c_int (fadd (15 / 2) (fmul (fmul (sinf ref_libm 0) fSpeed) (1 / 32))))
     = Inr (CHR ''#'') \<and>
   MovePlayer ref_libm (15 / 2, 15938355 / 8388608) 0 (1 / 32) True
     = Inr (15 / 2, 3984589 / 2097152) \<and>
   (3984589 / 2097152 :: real) \<noteq> 15938355 / 8388608"
  by (simp add: move_eval)

text \<open>
  C8. The index \<open>(int)y * 16 + (int)x\<close> that \<open>MovePlayer\<close> reads the map at is not
  checked and is not always an index of the map. From the start position \<open>(8, 8)\<close>
  with heading \<open>0\<close>, a frame of two seconds gives the tentative position \<open>(8, 18)\<close>,
  outside the map, and the index \<open>296\<close>, outside the \<open>256\<close> characters.
\<close>

theorem move_index_out_of_range:
  "c_int (fadd 8 (fmul (fmul (cosf ref_libm 0) fSpeed) 2)) * nMapWidth
     + c_int (fadd 8 (fmul (fmul (sinf ref_libm 0) fSpeed) 2)) = 296 \<and>
   \<not> 296 \<le> int (length map_w) \<and>
   MovePlayer ref_libm (8, 8) 0 2 True = Inl OutOfRange"
  by (simp add: move_eval)

section \<open>The minimap direction glyph\<close>

lemmas direction_eval = playerDirection_def fmodf_def pi_lit_value Let_def fl_eval

text \<open>
  C4. The claim: at the headings \<open>0\<close>, \<open>\<pi>/2\<close>, \<open>\<pi>\<close> and \<open>3\<pi>/2\<close> the glyph is
  \<open>v\<close>, \<open>>\<close>, \<open>^\<close> and \<open><\<close>. At the first three the code does that. At
  \<open>3\<pi>/2\<close> (the float \<open>2470649 / 524288 = 4.712389\<close>) it chooses \<open>^\<close>: the third test accepts every
  angle from \<open>3\<pi>/4\<close> upward, and \<open>fmod\<close> leaves a positive heading positive, so the
  last branch is reached by negative headings only. The same direction given as
  \<open>-\<pi>/2\<close> does get \<open><\<close>.
\<close>

theorem direction_glyph_at_quarter_turns:
  "playerDirection 0 = of_char (CHR ''v'') \<and>
   playerDirection (fl32 (157079633 / 100000000)) = of_char (CHR ''>'') \<and>
   playerDirection (fl32 (314159265 / 100000000)) = of_char (CHR ''^'') \<and>
   fl32 (471238898 / 100000000) = 2470649 / 524288 \<and>
   playerDirection (fl32 (471238898 / 100000000)) = of_char (CHR ''^'') \<and>
   playerDirection (fl32 (471238898 / 100000000)) \<noteq> of_char (CHR ''<'') \<and>
   playerDirection (fl32 (- 157079633 / 100000000)) = of_char (CHR ''<'')"
  by (simp add: direction_eval)

text \<open>No heading that is not negative is ever shown as \<open><\<close>.\<close>

lemma fmodf_nonneg:
  assumes "0 \<le> x" "0 < y"
  shows "0 \<le> fmodf x y"
proof -
  have "0 \<le> x / y" using assms by simp
  then have "of_int (c_int (x / y)) \<le> x / y" by (simp add: c_int_def)
  then have "of_int (c_int (x / y)) * y \<le> x"
    using assms(2) by (simp add: pos_le_divide_eq)
  then show ?thesis by (simp add: fmodf_def)
qed

lemma direction_never_left:
  assumes "0 \<le> a"
  shows "playerDirection a \<noteq> of_char (CHR ''<'')"
proof -
  have y: "fmul 2 pi_lit = 823549 / 131072" by (simp add: pi_lit_value fl_eval)
  have "0 \<le> fmodf a (fmul 2 pi_lit)"
    by (rule fmodf_nonneg [OF assms]) (simp add: y)
  moreover have "fdiv (- pi_lit) 4 < 0" by (simp add: pi_lit_value fl_eval)
  moreover have "fdiv pi_lit 4 < fdiv (fmul 3 pi_lit) 4" by (simp add: pi_lit_value fl_eval)
  ultimately show ?thesis
    by (auto simp: playerDirection_def Let_def)
qed

section \<open>Wall shading\<close>

lemma shade_thresholds:
  "fdiv 16 4 = 4" "fdiv 16 3 = 11184811 / 2097152" "fdiv 16 2 = 8"
  by (simp_all add: fl_eval)

section \<open>The ray march: termination and reported distance\<close>

lemmas cell_eval = cell_at_def nMapWidth_def nMapHeight_def map_w_flat Let_def



text \<open>
  C3. If the \<open>k\<close>-th sample of the march (\<open>1 \<le> k \<le> 160\<close>) lies outside the map and
  no earlier sample is a wall cell, the march reports exactly \<open>fDepth = 16\<close>, with
  \<open>bHitWall\<close> set and no boundary.
\<close>

theorem out_of_bounds_reports_depth:
  assumes "1 \<le> k" and "k \<le> 160"
    and "sample px py fEyeX fEyeY k = OutOfMap"
    and "\<And>j. 1 \<le> j \<Longrightarrow> j < k \<Longrightarrow> sample px py fEyeX fEyeY j \<noteq> WallCell"
  shows "rayLoop L px py fEyeX fEyeY ray0 =
         Some \<lparr>fDistanceToWall = 16, bHitWall = True, bBoundary = False\<rparr>"
proof -
  have "sample px py fEyeX fEyeY k \<noteq> OpenCell" using assms(3) by simp
  from first_not_open [OF assms(1) this]
  obtain k' where k': "1 \<le> k'" "k' \<le> k" "sample px py fEyeX fEyeY k' \<noteq> OpenCell"
    "\<And>j. 1 \<le> j \<Longrightarrow> j < k' \<Longrightarrow> sample px py fEyeX fEyeY j = OpenCell"
    by blast
  have "sample px py fEyeX fEyeY k' \<noteq> WallCell"
  proof (cases "k' = k")
    case True
    then show ?thesis using assms(3) by simp
  next
    case False
    with k'(2) have "k' < k" by simp
    from assms(4) [OF k'(1) this] show ?thesis .
  qed
  with k'(3) have out: "sample px py fEyeX fEyeY k' = OutOfMap"
    by (cases "sample px py fEyeX fEyeY k'") simp_all
  have "k' \<le> 160" using k'(2) assms(2) by simp
  from out_event [OF k'(1) this k'(4) out, of L] show ?thesis
    by (simp add: fDepth_def)
qed

text \<open>A player inside the bottom border, looking down: the first sample is outside.\<close>

theorem out_of_bounds_reports_depth_witness:
  "sample (17 / 2) (511 / 32) 0 1 1 = OutOfMap \<and>
   rayLoop ref_libm (17 / 2) (511 / 32) 0 1 ray0 =
     Some \<lparr>fDistanceToWall = 16, bHitWall = True, bBoundary = False\<rparr>"
proof -
  have s: "sample (17 / 2) (511 / 32) 0 1 1 = OutOfMap"
    by (simp add: sample_def eval_nat_numeral dseq_0 dseq_Suc step_value cell_eval fl_eval)
  have "rayLoop ref_libm (17 / 2) (511 / 32) 0 1 ray0 =
     Some \<lparr>fDistanceToWall = 16, bHitWall = True, bBoundary = False\<rparr>"
    by (rule out_of_bounds_reports_depth [where k = 1, OF _ _ s]) simp_all
  with s show ?thesis by simp
qed

text \<open>
  C2 as stated: a march that samples a wall cell inside the map reports a distance of at
  most \<open>fDepth = 16\<close>. The loop tests the distance before it adds the step, and the
  \<open>160\<close>-th accumulated float is \<open>8388621 / 524288 = 16.0000248\<close>. From the open cell
  \<open>(1, 3)\<close> with the ray direction \<open>(0.8771461, 0.4802235)\<close> (the floats
  \<open>7358035 / 8388608\<close> and \<open>4028407 / 8388608\<close>, sine and cosine of \<open>1.0698868\<close>) the
  first \<open>159\<close> samples are open cells and the \<open>160\<close>-th is the wall cell \<open>(15, 10)\<close>:
  the march reports \<open>16.0000248\<close>.
\<close>

theorem wall_hit_beyond_depth:
  "sample 1 3 (7358035 / 8388608) (4028407 / 8388608) 160 = WallCell \<and>
   map_option fDistanceToWall
     (rayLoop ref_libm 1 3 (7358035 / 8388608) (4028407 / 8388608) ray0)
     = Some (8388621 / 524288) \<and>
   \<not> (8388621 / 524288 :: real) \<le> fDepth"
proof -
  have run: "open_run 1 3 (7358035 / 8388608) (4028407 / 8388608) 159 (dseq 0)"
    unfolding dseq_0 by (simp add: eval_nat_numeral step_value cell_eval fl_fast)
  have w: "sample 1 3 (7358035 / 8388608) (4028407 / 8388608) 160 = WallCell"
    by (simp add: sample_def dseq_160 cell_eval fl_fast)
  have op: "sample 1 3 (7358035 / 8388608) (4028407 / 8388608) j = OpenCell"
    if "1 \<le> j" "j < 160" for j
    by (rule open_run_sample [OF run]) (use that in simp_all)
  from wall_event [of 160, OF _ _ op w, of ref_libm]
  obtain r where "rayLoop ref_libm 1 3 (7358035 / 8388608) (4028407 / 8388608) ray0 = Some r"
    and "fDistanceToWall r = dseq 160"
    by auto
  with w show ?thesis by (simp add: dseq_160 fDepth_def)
qed

text \<open>
  C2, amended. If the \<open>k\<close>-th sample of the march (\<open>1 \<le> k \<le> 160\<close>) is a wall cell
  inside the map and no earlier sample lies outside the map, the march stops at its first
  wall sample \<open>k' \<le> k\<close>, every sample before \<open>k'\<close> being an open cell, and reports the
  accumulated distance of that sample, which is at most \<open>8388621 / 524288\<close>
  (\<open>16.0000248\<close>, the \<open>160\<close>-th accumulated step).
\<close>

theorem wall_hit_distance:
  assumes "1 \<le> k" and "k \<le> 160"
    and "sample px py fEyeX fEyeY k = WallCell"
    and "\<And>j. 1 \<le> j \<Longrightarrow> j < k \<Longrightarrow> sample px py fEyeX fEyeY j \<noteq> OutOfMap"
  shows "\<exists>r k'. rayLoop L px py fEyeX fEyeY ray0 = Some r \<and> bHitWall r \<and>
           1 \<le> k' \<and> k' \<le> k \<and> sample px py fEyeX fEyeY k' = WallCell \<and>
           (\<forall>j. 1 \<le> j \<and> j < k' \<longrightarrow> sample px py fEyeX fEyeY j = OpenCell) \<and>
           fDistanceToWall r = dseq k' \<and> fDistanceToWall r \<le> 8388621 / 524288"
proof -
  have "sample px py fEyeX fEyeY k \<noteq> OpenCell" using assms(3) by simp
  from first_not_open [OF assms(1) this]
  obtain k' where k': "1 \<le> k'" "k' \<le> k" "sample px py fEyeX fEyeY k' \<noteq> OpenCell"
    "\<And>j. 1 \<le> j \<Longrightarrow> j < k' \<Longrightarrow> sample px py fEyeX fEyeY j = OpenCell"
    by blast
  have "sample px py fEyeX fEyeY k' \<noteq> OutOfMap"
  proof (cases "k' = k")
    case True
    then show ?thesis using assms(3) by simp
  next
    case False
    with k'(2) have "k' < k" by simp
    from assms(4) [OF k'(1) this] show ?thesis .
  qed
  with k'(3) have w: "sample px py fEyeX fEyeY k' = WallCell"
    by (cases "sample px py fEyeX fEyeY k'") simp_all
  have le: "k' \<le> 160" using k'(2) assms(2) by simp
  from wall_event [OF k'(1) le k'(4) w, of L]
  obtain r where r: "rayLoop L px py fEyeX fEyeY ray0 = Some r" "bHitWall r"
    "fDistanceToWall r = dseq k'"
    by blast
  have "fDistanceToWall r \<le> 8388621 / 524288"
    using dseq_le_last [OF le] r(3) by simp
  with r k'(1,2,4) w show ?thesis by blast
qed

text \<open>A player half a cell above the bottom border, looking down: the fifth sample is
  the wall.\<close>

theorem wall_hit_distance_witness:
  "sample (17 / 2) (29 / 2) 0 1 5 = WallCell \<and>
   (\<exists>r k'. rayLoop ref_libm (17 / 2) (29 / 2) 0 1 ray0 = Some r \<and> bHitWall r \<and>
      1 \<le> k' \<and> k' \<le> 5 \<and> sample (17 / 2) (29 / 2) 0 1 k' = WallCell \<and>
      (\<forall>j. 1 \<le> j \<and> j < k' \<longrightarrow> sample (17 / 2) (29 / 2) 0 1 j = OpenCell) \<and>
      fDistanceToWall r = dseq k' \<and> fDistanceToWall r \<le> 8388621 / 524288)"
proof -
  have run: "open_run (17 / 2) (29 / 2) 0 1 4 (dseq 0)"
    unfolding dseq_0 by (simp add: eval_nat_numeral step_value cell_eval fl_fast)
  have w: "sample (17 / 2) (29 / 2) 0 1 5 = WallCell"
    by (simp add: sample_def eval_nat_numeral dseq_0 dseq_Suc step_value cell_eval fl_fast)
  have no: "sample (17 / 2) (29 / 2) 0 1 j \<noteq> OutOfMap" if "1 \<le> j" "j < 5" for j
  proof -
    have "sample (17 / 2) (29 / 2) 0 1 j = OpenCell"
      by (rule open_run_sample [OF run]) (use that in simp_all)
    then show ?thesis by simp
  qed
  from wall_hit_distance [of 5, OF _ _ w no, of ref_libm] w show ?thesis by simp
qed

section \<open>The range of the reported distance\<close>

lemma dseq_nonneg: "0 \<le> dseq n"
proof (induction n)
  case 0
  show ?case by (simp add: dseq_0)
next
  case (Suc n)
  have "0 \<le> dseq n + fl32 (1 / 10)" using Suc by (simp add: step_value)
  from fl32_mono [OF this] show ?case by (simp add: dseq_Suc fadd_def fl32_0)
qed

lemma dseq_Suc_pos: "0 < dseq (Suc n)"
proof -
  have "fl32 (1 / 10) \<le> dseq n + fl32 (1 / 10)" using dseq_nonneg [of n] by simp
  from fl32_mono [OF this] have "fl32 (fl32 (1 / 10)) \<le> dseq (Suc n)"
    by (simp add: dseq_Suc fadd_def)
  moreover have "fl32 (fl32 (1 / 10)) = 13421773 / 134217728"
    by (simp add: step_value) (simp add: fl_eval)
  ultimately show ?thesis by simp
qed

lemma rayStep_distance:
  "fDistanceToWall (rayStep L px py ex ey s) = fDepth \<or>
   fDistanceToWall (rayStep L px py ex ey s) = fadd (fDistanceToWall s) (fl32 (1 / 10))"
  by (simp add: rayStep_def Let_def)

lemma march_distance_positive:
  assumes "rayLoop L px py ex ey ray0 = Some r"
  shows "0 < fDistanceToWall r"
proof -
  let ?F = "rayStep L px py ex ey"
  obtain n where n: "rayLoop L px py ex ey ray0 = Some ((?F ^^ n) ray0)"
    "\<not> continues ((?F ^^ n) ray0)"
    "\<And>m. m < n \<Longrightarrow> continues ((?F ^^ m) ray0)"
    by (rule march_least [of L px py ex ey]) blast
  have "continues ray0" by (simp add: continues_def ray0_def fDepth_def)
  with n(2) obtain m where m: "n = Suc m" by (cases n) auto
  have "(?F ^^ m) ray0 = ray0\<lparr>fDistanceToWall := dseq m\<rparr>"
    by (rule march_state) (use n(3) m in simp)
  then have st: "(?F ^^ n) ray0 = ?F (ray0\<lparr>fDistanceToWall := dseq m\<rparr>)"
    by (simp add: m)
  have r: "r = ?F (ray0\<lparr>fDistanceToWall := dseq m\<rparr>)"
    using assms n(1) st by simp
  from rayStep_distance [of L px py ex ey "ray0\<lparr>fDistanceToWall := dseq m\<rparr>"]
  show ?thesis
    using dseq_Suc_pos [of m] by (auto simp: r fDepth_def dseq_Suc)
qed

text \<open>The distance a march reports is \<open>fDepth\<close> or one of the \<open>160\<close> accumulated
  steps; it is never one of the three inner shading thresholds.\<close>

lemma steps_avoid_dseq:
  "steps_avoid vs n (dseq m) \<Longrightarrow> m < j \<Longrightarrow> j \<le> m + n \<Longrightarrow> dseq j \<notin> set vs"
proof (induction n arbitrary: m)
  case 0
  then show ?case by simp
next
  case (Suc n)
  from Suc.prems(1) have c: "dseq (Suc m) \<notin> set vs"
    and r: "steps_avoid vs n (dseq (Suc m))"
    by (simp_all add: dseq_Suc)
  show ?case
  proof (cases "j = Suc m")
    case True
    with c show ?thesis by simp
  next
    case False
    with Suc.prems(2,3) have "Suc m < j" "j \<le> Suc m + n" by simp_all
    from Suc.IH [OF r this] show ?thesis .
  qed
qed

lemma thresholds_avoided: "steps_avoid [4, 11184811 / 2097152, 8] 160 (dseq 0)"
  unfolding dseq_0 by (simp add: eval_nat_numeral step_value fl_fast)

lemma march_distance_cases:
  assumes "rayLoop L px py ex ey ray0 = Some r"
  shows "fDistanceToWall r = fDepth \<or>
         (\<exists>k. 1 \<le> k \<and> k \<le> 160 \<and> fDistanceToWall r = dseq k)"
proof -
  let ?F = "rayStep L px py ex ey"
  obtain n where n: "n \<le> 160" "rayLoop L px py ex ey ray0 = Some ((?F ^^ n) ray0)"
    "\<not> continues ((?F ^^ n) ray0)"
    "\<And>m. m < n \<Longrightarrow> continues ((?F ^^ m) ray0)"
    by (rule march_least [of L px py ex ey]) blast
  have "continues ray0" by (simp add: continues_def ray0_def fDepth_def)
  with n(3) obtain m where m: "n = Suc m" by (cases n) auto
  have "(?F ^^ m) ray0 = ray0\<lparr>fDistanceToWall := dseq m\<rparr>"
    by (rule march_state) (use n(4) m in simp)
  then have st: "(?F ^^ n) ray0 = ?F (ray0\<lparr>fDistanceToWall := dseq m\<rparr>)"
    by (simp add: m)
  have r: "r = ?F (ray0\<lparr>fDistanceToWall := dseq m\<rparr>)"
    using assms n(2) st by simp
  from rayStep_distance [of L px py ex ey "ray0\<lparr>fDistanceToWall := dseq m\<rparr>"]
  have "fDistanceToWall r = fDepth \<or> fDistanceToWall r = dseq (Suc m)"
    by (simp add: r dseq_Suc)
  moreover have "1 \<le> Suc m" "Suc m \<le> 160" using n(1) m by simp_all
  ultimately show ?thesis by blast
qed

lemma march_distance_bounds:
  assumes "rayLoop L px py ex ey ray0 = Some r"
  shows "13421773 / 134217728 \<le> fDistanceToWall r \<and> fDistanceToWall r \<le> 8388621 / 524288"
proof -
  from march_distance_cases [OF assms]
  show ?thesis
  proof
    assume "fDistanceToWall r = fDepth"
    then show ?thesis by (simp add: fDepth_def)
  next
    assume "\<exists>k. 1 \<le> k \<and> k \<le> 160 \<and> fDistanceToWall r = dseq k"
    then obtain k where k: "1 \<le> k" "k \<le> 160" "fDistanceToWall r = dseq k" by blast
    from k(1) obtain m where m: "k = Suc m" by (cases k) simp_all
    have "fl32 (1 / 10) \<le> dseq m + fl32 (1 / 10)" using dseq_nonneg [of m] by simp
    from fl32_mono [OF this] have "fl32 (fl32 (1 / 10)) \<le> dseq k"
      by (simp add: m dseq_Suc fadd_def)
    moreover have "fl32 (fl32 (1 / 10)) = 13421773 / 134217728"
      by (simp add: step_value) (simp add: fl_eval)
    ultimately show ?thesis using dseq_le_last [OF k(2)] k(3) by simp
  qed
qed

lemma march_distance_off_thresholds:
  assumes "rayLoop L px py ex ey ray0 = Some r"
  shows "fDistanceToWall r \<noteq> fdiv fDepth 4 \<and> fDistanceToWall r \<noteq> fdiv fDepth 3 \<and>
         fDistanceToWall r \<noteq> fdiv fDepth 2"
proof -
  from march_distance_cases [OF assms]
  show ?thesis
  proof
    assume "fDistanceToWall r = fDepth"
    then show ?thesis by (simp add: fDepth_def shade_thresholds)
  next
    assume "\<exists>k. 1 \<le> k \<and> k \<le> 160 \<and> fDistanceToWall r = dseq k"
    then obtain k where k: "1 \<le> k" "k \<le> 160" "fDistanceToWall r = dseq k" by blast
    have "dseq k \<notin> set [4, 11184811 / 2097152, 8]"
      by (rule steps_avoid_dseq [OF thresholds_avoided]) (use k in simp_all)
    then show ?thesis by (simp add: k(3) fDepth_def shade_thresholds)
  qed
qed

section \<open>The wall slab of a column\<close>

text \<open>
  The conversion to \<open>int\<close> and the two roundings before it are monotone, so \<open>nCeiling\<close>
  grows with the distance. The lemmas are used at the distances of the march, from
  \<open>0.1f\<close> to \<open>16.0000248\<close>, where \<open>nCeiling\<close> lies between \<open>-380\<close> and \<open>17\<close> and the
  conversion is defined.
\<close>

lemma c_int_mono: "x \<le> y \<Longrightarrow> c_int x \<le> c_int y"
proof -
  assume xy: "x \<le> y"
  consider "0 \<le> x" | "x < 0" "0 \<le> y" | "x < 0" "y < 0" by linarith
  then show ?thesis
  proof cases
    case 1
    with xy have "0 \<le> y" by simp
    with 1 xy show ?thesis by (simp add: c_int_def floor_mono)
  next
    case 2
    have "\<lceil>x\<rceil> \<le> 0" using 2(1) by (simp add: ceiling_le_iff)
    moreover have "0 \<le> \<lfloor>y\<rfloor>" using 2(2) by simp
    ultimately have "\<lceil>x\<rceil> \<le> \<lfloor>y\<rfloor>" by (rule order_trans)
    with 2 show ?thesis by (simp add: c_int_def)
  next
    case 3
    with xy show ?thesis by (simp add: c_int_def ceiling_mono)
  qed
qed

lemma nCeiling_formula: "nCeiling d = c_int (fsub 20 (fdiv 40 d))"
  by (simp add: nCeiling_def nScreenHeight_def fl32_small_ints)

lemma nCeiling_mono:
  assumes "0 < d" "d \<le> d'"
  shows "nCeiling d \<le> nCeiling d'"
proof -
  have "40 / d' \<le> 40 / d" using assms by (simp add: frac_le)
  then have "fdiv 40 d' \<le> fdiv 40 d" unfolding fdiv_def by (rule fl32_mono)
  then have "20 - fdiv 40 d \<le> 20 - fdiv 40 d'" by simp
  then have "fsub 20 (fdiv 40 d) \<le> fsub 20 (fdiv 40 d')" unfolding fsub_def by (rule fl32_mono)
  then show ?thesis unfolding nCeiling_formula by (rule c_int_mono)
qed

lemma nCeiling_le:
  assumes "0 < d"
  shows "nCeiling d \<le> 20"
proof -
  have "0 \<le> 40 / d" using assms by simp
  from fl32_mono [OF this] have "0 \<le> fdiv 40 d" by (simp add: fdiv_def fl32_0)
  then have "20 - fdiv 40 d \<le> 20" by simp
  from fl32_mono [OF this] have "fsub 20 (fdiv 40 d) \<le> 20"
    by (simp add: fsub_def fl32_small_ints)
  from c_int_mono [OF this] show ?thesis
    by (simp add: nCeiling_formula) (simp add: c_int_def)
qed

lemma ceilingRows_eq: "ceilingRows d = {0 ..< min 40 (nCeiling d)}"
  by (auto simp: ceilingRows_def screenRows_def nScreenHeight_def)

lemma wallRows_eq: "wallRows d = {max 0 (nCeiling d) ..< min 40 (40 - nCeiling d)}"
  by (auto simp: wallRows_def screenRows_def nScreenHeight_def nFloor_def)

lemma floorRows_eq:
  "nCeiling d \<le> 20 \<Longrightarrow> floorRows d = {max 0 (40 - nCeiling d) ..< 40}"
  by (auto simp: floorRows_def screenRows_def nScreenHeight_def nFloor_def)

lemma nCeiling_march_range:
  assumes "rayLoop L px py ex ey ray0 = Some r"
  shows "- 380 \<le> nCeiling (fDistanceToWall r) \<and> nCeiling (fDistanceToWall r) \<le> 17"
proof -
  from march_distance_bounds [OF assms]
  have b: "13421773 / 134217728 \<le> fDistanceToWall r" "fDistanceToWall r \<le> 8388621 / 524288"
    by simp_all
  have "nCeiling (13421773 / 134217728) \<le> nCeiling (fDistanceToWall r)"
    by (rule nCeiling_mono [OF _ b(1)]) simp
  moreover have "nCeiling (fDistanceToWall r) \<le> nCeiling (8388621 / 524288)"
    by (rule nCeiling_mono [OF _ b(2)]) (use b(1) in simp)
  moreover have "nCeiling (13421773 / 134217728) = - 380" "nCeiling (8388621 / 524288) = 17"
    by (simp_all add: nCeiling_formula fl_eval)
  ultimately show ?thesis by simp
qed

text \<open>The rows of a column by what the inner loop stores in them.\<close>

lemma rowGlyph_rows:
  assumes "y \<in> screenRows"
  shows "rowGlyph d b y =
         (if y \<in> ceilingRows d then of_char (CHR '' '')
          else if y \<in> wallRows d then nShade d b
          else nFloorShade y)"
  using assms by (simp add: rowGlyph_def ceilingRows_def wallRows_def)

lemma rows_partition:
  "screenRows = ceilingRows d \<union> wallRows d \<union> floorRows d"
  "ceilingRows d \<inter> wallRows d = {}" "ceilingRows d \<inter> floorRows d = {}"
  "wallRows d \<inter> floorRows d = {}"
  by (auto simp: ceilingRows_def wallRows_def floorRows_def)

text \<open>A column whose \<open>nCeiling\<close> is not positive is wall from top to bottom.\<close>

lemma full_slab:
  assumes "nCeiling d \<le> 0"
  shows "map (rowGlyph d b) [0 .. nScreenHeight - 1] = replicate 40 (nShade d b)"
proof -
  have "map (rowGlyph d b) [0 .. nScreenHeight - 1] =
        map (\<lambda>y. nShade d b) [0 .. nScreenHeight - 1]"
  proof (rule map_cong [OF refl])
    fix y assume "y \<in> set [0 .. nScreenHeight - 1]"
    then have "0 \<le> y" "y < nScreenHeight" by simp_all
    with assms show "rowGlyph d b y = nShade d b"
      by (simp add: rowGlyph_def nFloor_def)
  qed
  then show ?thesis by (simp add: map_replicate_const nScreenHeight_def)
qed

section \<open>The frame buffer\<close>

lemma fold_upd_other:
  "i \<notin> f ` set ys \<Longrightarrow> fold (\<lambda>y s. s(f y := g y)) ys s i = s i"
  by (induction ys arbitrary: s) auto

lemma fold_upd_in:
  "y \<in> set ys \<Longrightarrow> inj_on f (set ys) \<Longrightarrow> fold (\<lambda>y s. s(f y := g y)) ys s (f y) = g y"
proof (induction ys arbitrary: s)
  case Nil
  then show ?case by simp
next
  case (Cons a ys)
  have inj: "inj_on f (set ys)" using Cons.prems(2) by (simp add: inj_on_def)
  show ?case
  proof (cases "y \<in> set ys")
    case True
    from Cons.IH [OF True inj] show ?thesis by simp
  next
    case False
    with Cons.prems(1) have ya: "y = a" by simp
    have "f a \<notin> f ` set ys"
    proof
      assume "f a \<in> f ` set ys"
      then obtain b where b: "b \<in> set ys" "f a = f b" by blast
      with Cons.prems(2) have "a = b" by (simp add: inj_on_def)
      with b(1) False ya show False by simp
    qed
    then have "fold (\<lambda>y s. s(f y := g y)) ys (s(f a := g a)) (f a) = (s(f a := g a)) (f a)"
      by (rule fold_upd_other)
    then show ?thesis by (simp only: ya fold_simps comp_apply fun_upd_same)
  qed
qed

lemma cellIndex_inj:
  assumes "0 \<le> x" "x < nScreenWidth" "0 \<le> y" "0 \<le> x'" "x' < nScreenWidth" "0 \<le> y'"
    and "cellIndex x y = cellIndex x' y'"
  shows "x = x' \<and> y = y'"
proof -
  have e: "y * 120 + x = y' * 120 + x'"
    using assms by (simp add: cellIndex_def nScreenWidth_def)
  have "(y * 120 + x) mod 120 = x" "(y' * 120 + x') mod 120 = x'"
    using assms by (simp_all add: nScreenWidth_def)
  with e have "x = x'" by simp
  with e show ?thesis by simp
qed

lemma fillColumn_in:
  assumes "0 \<le> x" "x < nScreenWidth" "0 \<le> y" "y < nScreenHeight"
  shows "fillColumn x d b scr (cellIndex x y) = rowGlyph d b y"
proof -
  have inj: "inj_on (\<lambda>y. cellIndex x y) (set [0 .. nScreenHeight - 1])"
  proof (rule inj_onI)
    fix u v
    assume "u \<in> set [0 .. nScreenHeight - 1]" "v \<in> set [0 .. nScreenHeight - 1]"
      and e: "cellIndex x u = cellIndex x v"
    then have "0 \<le> u" "0 \<le> v" by simp_all
    from cellIndex_inj [OF assms(1,2) this(1) assms(1,2) this(2) e] show "u = v" by simp
  qed
  have mem: "y \<in> set [0 .. nScreenHeight - 1]" using assms(3,4) by simp
  from fold_upd_in [OF mem inj, of "rowGlyph d b" scr] show ?thesis
    by (simp add: fillColumn_def cellIndex_def)
qed

lemma fillColumn_other:
  assumes "0 \<le> x" "x < nScreenWidth" "0 \<le> x'" "x' < nScreenWidth" "0 \<le> y'" "x \<noteq> x'"
  shows "fillColumn x d b scr (cellIndex x' y') = scr (cellIndex x' y')"
proof -
  have "cellIndex x' y' \<notin> (\<lambda>y. cellIndex x y) ` set [0 .. nScreenHeight - 1]"
  proof
    assume "cellIndex x' y' \<in> (\<lambda>y. cellIndex x y) ` set [0 .. nScreenHeight - 1]"
    then obtain u where u: "0 \<le> u" "cellIndex x' y' = cellIndex x u" by auto
    from cellIndex_inj [OF assms(3,4,5) assms(1,2) u] assms(6) show False by simp
  qed
  from fold_upd_other [OF this, of "rowGlyph d b" scr] show ?thesis
    by (simp add: fillColumn_def cellIndex_def)
qed

lemma fillColumn_outside:
  assumes "0 \<le> x" "x < nScreenWidth" "nat (nScreenWidth * nScreenHeight) \<le> i"
  shows "fillColumn x d b scr i = scr i"
proof -
  have "i \<notin> (\<lambda>y. nat (y * nScreenWidth + x)) ` set [0 .. nScreenHeight - 1]"
    using assms by (auto simp: nScreenWidth_def nScreenHeight_def)
  from fold_upd_other [OF this, of "rowGlyph d b" scr] show ?thesis
    by (simp add: fillColumn_def)
qed

lemma columns_cells:
  assumes "\<And>x. x \<in> set xs \<Longrightarrow> 0 \<le> x \<and> x < nScreenWidth"
  shows "\<exists>scr'. columns L P xs scr = Some scr' \<and>
          (\<forall>x y. 0 \<le> x \<and> x < nScreenWidth \<and> 0 \<le> y \<and> y < nScreenHeight \<longrightarrow>
             scr' (cellIndex x y) =
               (if x \<in> set xs
                then rowGlyph (fDistanceToWall (the (castRay L P x)))
                       (bBoundary (the (castRay L P x))) y
                else scr (cellIndex x y))) \<and>
          (\<forall>i. nat (nScreenWidth * nScreenHeight) \<le> i \<longrightarrow> scr' i = scr i)"
  using assms
proof (induction xs arbitrary: scr)
  case Nil
  show ?case by simp
next
  case (Cons a xs)
  obtain r where r: "castRay L P a = Some r" using castRay_total by blast
  define scr1 where "scr1 = fillColumn a (fDistanceToWall r) (bBoundary r) scr"
  have a: "0 \<le> a" "a < nScreenWidth" using Cons.prems [of a] by simp_all
  have "\<And>x. x \<in> set xs \<Longrightarrow> 0 \<le> x \<and> x < nScreenWidth" using Cons.prems by simp
  from Cons.IH [OF this, of scr1]
  obtain scr' where scr': "columns L P xs scr1 = Some scr'"
    "\<And>x y. 0 \<le> x \<Longrightarrow> x < nScreenWidth \<Longrightarrow> 0 \<le> y \<Longrightarrow> y < nScreenHeight \<Longrightarrow>
       scr' (cellIndex x y) =
         (if x \<in> set xs
          then rowGlyph (fDistanceToWall (the (castRay L P x)))
                 (bBoundary (the (castRay L P x))) y
          else scr1 (cellIndex x y))"
    "\<And>i. nat (nScreenWidth * nScreenHeight) \<le> i \<Longrightarrow> scr' i = scr1 i"
    by blast
  have run: "columns L P (a # xs) scr = Some scr'"
    by (simp add: renderColumn_def r scr1_def [symmetric] scr'(1))
  have cells: "scr' (cellIndex x y) =
      (if x \<in> set (a # xs)
       then rowGlyph (fDistanceToWall (the (castRay L P x))) (bBoundary (the (castRay L P x))) y
       else scr (cellIndex x y))"
    if "0 \<le> x" "x < nScreenWidth" "0 \<le> y" "y < nScreenHeight" for x y
  proof (cases "x \<in> set xs")
    case True
    then show ?thesis using scr'(2) [OF that] by simp
  next
    case False
    show ?thesis
    proof (cases "x = a")
      case True
      then show ?thesis
        using scr'(2) [OF that] False fillColumn_in [OF that]
        by (simp add: scr1_def r)
    next
      case F2: False
      then have "a \<noteq> x" by simp
      from fillColumn_other [OF a that(1,2,3) this]
      show ?thesis
        using scr'(2) [OF that] False F2 by (simp add: scr1_def)
    qed
  qed
  have outside: "scr' i = scr i" if "nat (nScreenWidth * nScreenHeight) \<le> i" for i
    using scr'(3) [OF that] fillColumn_outside [OF a that] by (simp add: scr1_def)
  from run cells outside show ?case by blast
qed

lemma RenderScene_total: "\<exists>scr'. RenderScene L P scr fElapsedTime = Some scr'"
proof -
  have cols: "\<And>x. x \<in> set [0 .. nScreenWidth - 1] \<Longrightarrow> 0 \<le> x \<and> x < nScreenWidth"
    by simp
  from columns_cells [OF cols, where L = L and P = P and scr = scr]
  obtain s where "columns L P [0 .. nScreenWidth - 1] scr = Some s"
    by blast
  then show ?thesis by (simp add: RenderScene_def)
qed

lemma render_cell:
  assumes "0 \<le> x" "x < nScreenWidth" "0 \<le> y" "y < nScreenHeight"
    and "castRay L P x = Some r" and "RenderScene L P scr fElapsedTime = Some scr'"
  shows "scr' (nat (y * nScreenWidth + x)) = rowGlyph (fDistanceToWall r) (bBoundary r) y"
proof -
  have cols: "\<And>x. x \<in> set [0 .. nScreenWidth - 1] \<Longrightarrow> 0 \<le> x \<and> x < nScreenWidth"
    by simp
  from columns_cells [OF cols, where L = L and P = P and scr = scr]
  obtain s where s: "columns L P [0 .. nScreenWidth - 1] scr = Some s"
    "\<And>x y. 0 \<le> x \<Longrightarrow> x < nScreenWidth \<Longrightarrow> 0 \<le> y \<Longrightarrow> y < nScreenHeight \<Longrightarrow>
       s (cellIndex x y) =
         (if x \<in> set [0 .. nScreenWidth - 1]
          then rowGlyph (fDistanceToWall (the (castRay L P x)))
                 (bBoundary (the (castRay L P x))) y
          else scr (cellIndex x y))"
    by blast
  from s(1) assms(6) have e: "s = scr'" by (simp add: RenderScene_def)
  from s(2) [OF assms(1-4)] assms(1,2,5) show ?thesis
    by (simp add: e cellIndex_def)
qed

lemma frame_cell:
  assumes "0 \<le> x" "x < nScreenWidth" "0 \<le> y" "y < nScreenHeight"
  shows "the (RenderScene L P scr fElapsedTime) (nat (y * nScreenWidth + x)) =
         rowGlyph (fDistanceToWall (the (castRay L P x))) (bBoundary (the (castRay L P x))) y"
proof -
  obtain r where r: "castRay L P x = Some r" using castRay_total by blast
  obtain scr' where s: "RenderScene L P scr fElapsedTime = Some scr'"
    using RenderScene_total by blast
  from render_cell [OF assms r s] show ?thesis by (simp add: r s)
qed

lemma frame_column:
  assumes "0 \<le> x" "x < nScreenWidth" "castRay L P x = Some r"
  shows "map (\<lambda>y. the (RenderScene L P scr fElapsedTime) (nat (y * nScreenWidth + x)))
           [0 .. nScreenHeight - 1] =
         map (rowGlyph (fDistanceToWall r) (bBoundary r)) [0 .. nScreenHeight - 1]"
proof (rule map_cong [OF refl])
  fix y assume "y \<in> set [0 .. nScreenHeight - 1]"
  then have "0 \<le> y" "y < nScreenHeight" by simp_all
  from frame_cell [OF assms(1,2) this, of L P scr fElapsedTime]
  show "the (RenderScene L P scr fElapsedTime) (nat (y * nScreenWidth + x)) =
        rowGlyph (fDistanceToWall r) (bBoundary r) y"
    by (simp add: assms(3))
qed

text \<open>
  C9. \<open>RenderScene\<close> returns, and in the frame it returns every cell of the
  \<open>120 \<times> 40\<close> buffer holds what the ceiling, wall or floor branch of its column stores
  for its row, whatever the buffer held before: two calls on different buffers give the
  same glyph in every cell.
\<close>

theorem frame_fully_overwritten:
  assumes "0 \<le> x" "x < nScreenWidth" "0 \<le> y" "y < nScreenHeight"
  shows "\<exists>scr1 scr2 r.
           RenderScene L P old1 fElapsedTime = Some scr1 \<and>
           RenderScene L P old2 fElapsedTime = Some scr2 \<and>
           castRay L P x = Some r \<and>
           scr1 (nat (y * nScreenWidth + x)) = rowGlyph (fDistanceToWall r) (bBoundary r) y \<and>
           scr2 (nat (y * nScreenWidth + x)) = scr1 (nat (y * nScreenWidth + x))"
proof -
  have cols: "\<And>x. x \<in> set [0 .. nScreenWidth - 1] \<Longrightarrow> 0 \<le> x \<and> x < nScreenWidth"
    by simp
  obtain r where r: "castRay L P x = Some r" using castRay_total by blast
  have cell: "\<exists>scr'. RenderScene L P scr fElapsedTime = Some scr' \<and>
      scr' (nat (y * nScreenWidth + x)) = rowGlyph (fDistanceToWall r) (bBoundary r) y"
    for scr
  proof -
    from columns_cells [OF cols, where L = L and P = P and scr = scr]
    obtain scr' where scr': "columns L P [0 .. nScreenWidth - 1] scr = Some scr'"
      "\<And>x y. 0 \<le> x \<Longrightarrow> x < nScreenWidth \<Longrightarrow> 0 \<le> y \<Longrightarrow> y < nScreenHeight \<Longrightarrow>
         scr' (cellIndex x y) =
           (if x \<in> set [0 .. nScreenWidth - 1]
            then rowGlyph (fDistanceToWall (the (castRay L P x)))
                   (bBoundary (the (castRay L P x))) y
            else scr (cellIndex x y))"
      by blast
    have "scr' (cellIndex x y) = rowGlyph (fDistanceToWall r) (bBoundary r) y"
      using scr'(2) [OF assms] assms r by simp
    with scr'(1) show ?thesis
      by (simp add: RenderScene_def cellIndex_def)
  qed
  from cell [of old1] cell [of old2] r show ?thesis by auto
qed

theorem frame_fully_overwritten_witness:
  "\<exists>scr1 scr2 r.
     RenderScene ref_libm \<lparr>fPlayerX = 8, fPlayerY = 8, fPlayerA = 0\<rparr> (\<lambda>i. 0) 0 = Some scr1 \<and>
     RenderScene ref_libm \<lparr>fPlayerX = 8, fPlayerY = 8, fPlayerA = 0\<rparr> (\<lambda>i. 1) 0 = Some scr2 \<and>
     castRay ref_libm \<lparr>fPlayerX = 8, fPlayerY = 8, fPlayerA = 0\<rparr> 119 = Some r \<and>
     scr1 (nat (39 * nScreenWidth + 119)) = rowGlyph (fDistanceToWall r) (bBoundary r) 39 \<and>
     scr2 (nat (39 * nScreenWidth + 119)) = scr1 (nat (39 * nScreenWidth + 119))"
  by (rule frame_fully_overwritten) (simp_all add: nScreenWidth_def nScreenHeight_def)

text \<open>Nothing is written beyond the \<open>4800\<close> cells of the buffer.\<close>

lemma render_writes_inside:
  assumes "RenderScene L P scr fElapsedTime = Some scr'"
    and "nat (nScreenWidth * nScreenHeight) \<le> i"
  shows "scr' i = scr i"
proof -
  have cols: "\<And>x. x \<in> set [0 .. nScreenWidth - 1] \<Longrightarrow> 0 \<le> x \<and> x < nScreenWidth"
    by simp
  from columns_cells [OF cols, where L = L and P = P and scr = scr]
  obtain s where s: "columns L P [0 .. nScreenWidth - 1] scr = Some s"
    "\<And>i. nat (nScreenWidth * nScreenHeight) \<le> i \<Longrightarrow> s i = scr i"
    by blast
  from s(1) assms(1) have "s = scr'" by (simp add: RenderScene_def)
  with s(2) [OF assms(2)] show ?thesis by simp
qed

text \<open>
  C10. \<open>RenderScene\<close> does not read its parameter \<open>fElapsedTime\<close>: with the same
  player, map and buffer, two calls with any two elapsed times return the same frame.
\<close>

theorem render_ignores_elapsed_time:
  "RenderScene L P scr t1 = RenderScene L P scr t2"
  by (simp add: RenderScene_def)

section \<open>The boundary test of a wall seen from the front\<close>

text \<open>
  The four corners of the cell that was hit are sorted by their distance and the nearest
  two are tested. For a ray with direction \<open>(0, 1)\<close> from the middle of the open cell
  below, the two near corners are half a cell to either side, the angle between the ray
  and each of them is large, and the column is not a boundary. The square root and the
  arc cosine of \<open>ref_libm\<close> enter through bounds only.
\<close>

lemma near_corners_decide:
  assumes "d0 < d1"
  shows "CheckWallBoundary L (sort_key fst [(d0, a), (d1, b), (d0, c), (d1, e)]) =
         Some (acos_below L a \<or> acos_below L c)"
  using assms
  by (simp add: CheckWallBoundary_def at_v_def upt_rec [of 0] upt_rec [of 1] eval_nat_numeral)

lemma wallBoundary_near:
  assumes "fst (corner L px py ex ey nx ny 0 0) = d0"
    and "fst (corner L px py ex ey nx ny 0 1) = d1"
    and "fst (corner L px py ex ey nx ny 1 0) = d0"
    and "fst (corner L px py ex ey nx ny 1 1) = d1"
    and "d0 < d1"
  shows "wallBoundary L px py ex ey nx ny \<longleftrightarrow>
         acos_below L (snd (corner L px py ex ey nx ny 0 0)) \<or>
         acos_below L (snd (corner L px py ex ey nx ny 1 0))"
proof -
  have "concat (map (\<lambda>tx. map (\<lambda>ty. corner L px py ex ey nx ny tx ty) [0, 1]) [0, 1]) =
        [(d0, snd (corner L px py ex ey nx ny 0 0)), (d1, snd (corner L px py ex ey nx ny 0 1)),
         (d0, snd (corner L px py ex ey nx ny 1 0)), (d1, snd (corner L px py ex ey nx ny 1 1))]"
    using assms(1-4) by (simp add: prod_eq_iff)
  then show ?thesis
    by (simp only: wallBoundary_def Let_def near_corners_decide [OF assms(5)]) simp
qed

lemma ref_sqrt_ge: "a ^ 2 \<le> v \<Longrightarrow> fl32 a \<le> sqrtf ref_libm v"
  by (simp add: ref_libm_def fl32_mono real_le_rsqrt)

lemma ref_sqrt_le: "0 \<le> b \<Longrightarrow> v \<le> b ^ 2 \<Longrightarrow> sqrtf ref_libm v \<le> fl32 b"
  by (simp add: ref_libm_def fl32_mono real_le_lsqrt)

lemma ref_acos_far:
  assumes "- 1 \<le> c" "c \<le> 1 / 2"
  shows "1 / 2 \<le> acosf ref_libm c"
proof -
  have "arccos (1 / 2) \<le> arccos c" using assms by (intro arccos_le_arccos) simp_all
  moreover have "arccos (1 / 2) = pi / 3"
    using arccos_cos [of "pi / 3"] by (simp add: cos_60)
  moreover have "1 / 2 \<le> pi / 3" using pi_ge_two by simp
  ultimately have "1 / 2 \<le> arccos c" by simp
  from fl32_mono [OF this] have "fl32 (1 / 2) \<le> acosf ref_libm c"
    by (simp add: ref_libm_def)
  moreover have "fl32 (1 / 2) = 1 / 2" by (simp add: fl_eval)
  ultimately show ?thesis by simp
qed

lemma not_acos_below:
  assumes "case v of None \<Rightarrow> True | Some c \<Rightarrow> c \<le> 1 / 2"
  shows "\<not> acos_below ref_libm v"
proof (cases v)
  case None
  then show ?thesis by (simp add: acos_below_def)
next
  case (Some c)
  have t: "fBoundaryTolerance < 1 / 2" by (simp add: fBoundaryTolerance_def fl_eval)
  show ?thesis
  proof (cases "- 1 \<le> c")
    case True
    with assms Some have "1 / 2 \<le> acosf ref_libm c" by (intro ref_acos_far) simp_all
    with t show ?thesis by (simp add: acos_below_def Some)
  next
    case False
    then show ?thesis by (simp add: acos_below_def Some)
  qed
qed

lemma corner_facing:
  assumes vy: "fsub (fadd (fl32 (of_int ny)) (fl32 (of_int ty))) py \<le> 1 / 4"
    and d: "1 / 2 \<le> fst (corner L px py 0 1 nx ny tx ty)"
  shows "case snd (corner L px py 0 1 nx ny tx ty) of None \<Rightarrow> True | Some c \<Rightarrow> c \<le> 1 / 2"
proof -
  define v where "v = fsub (fadd (fl32 (of_int ny)) (fl32 (of_int ty))) py"
  define u where "u = fsub (fadd (fl32 (of_int nx)) (fl32 (of_int tx))) px"
  define e where "e = sqrtf L (fadd (fmul u u) (fmul v v))"
  have c: "corner L px py 0 1 nx ny tx ty =
      (e, if e = 0 then None else Some (fadd (fdiv (fmul 0 u) e) (fdiv (fmul 1 v) e)))"
    by (simp add: corner_def Let_def v_def u_def e_def)
  from d have e: "1 / 2 \<le> e" by (simp add: c)
  have q: "fl32 (1 / 4) = 1 / 4" "fl32 (1 / 2) = 1 / 2" by (simp_all add: fl_eval)
  from vy have "fl32 v \<le> 1 / 4" using fl32_mono [of v "1 / 4"] by (simp add: v_def q)
  then have "fl32 v / e \<le> 1 / 2"
  proof (cases "0 \<le> fl32 v")
    case True
    have "fl32 v / e \<le> fl32 v / (1 / 2)" using True e by (intro divide_left_mono) simp_all
    also have "\<dots> \<le> 1 / 2" using \<open>fl32 v \<le> 1 / 4\<close> by simp
    finally show ?thesis .
  next
    case False
    then have "fl32 v / e \<le> 0" using e by (simp add: divide_nonpos_pos)
    then show ?thesis by (rule order_trans) simp
  qed
  from fl32_mono [OF this] have "fl32 (fl32 v / e) \<le> 1 / 2" by (simp add: q)
  from fl32_mono [OF this] have "fl32 (fl32 (fl32 v / e)) \<le> 1 / 2" by (simp add: q)
  then have "fadd (fdiv (fmul 0 u) e) (fdiv (fmul 1 v) e) \<le> 1 / 2"
    by (simp add: fadd_def fdiv_def fmul_def fl32_0)
  then show ?thesis by (simp add: c)
qed

lemma facing_corners_1:
  "fst (corner ref_libm (17 / 2) (239 / 16) 0 1 8 15 0 0) = sqrtf ref_libm (65 / 256)"
  "fst (corner ref_libm (17 / 2) (239 / 16) 0 1 8 15 0 1) = sqrtf ref_libm (353 / 256)"
  "fst (corner ref_libm (17 / 2) (239 / 16) 0 1 8 15 1 0) = sqrtf ref_libm (65 / 256)"
  "fst (corner ref_libm (17 / 2) (239 / 16) 0 1 8 15 1 1) = sqrtf ref_libm (353 / 256)"
  by (simp_all add: corner_def Let_def fl_eval)

lemma facing_corners_2:
  "fst (corner ref_libm (17 / 2) (119 / 8) 0 1 8 15 0 0) = sqrtf ref_libm (17 / 64)"
  "fst (corner ref_libm (17 / 2) (119 / 8) 0 1 8 15 0 1) = sqrtf ref_libm (97 / 64)"
  "fst (corner ref_libm (17 / 2) (119 / 8) 0 1 8 15 1 0) = sqrtf ref_libm (17 / 64)"
  "fst (corner ref_libm (17 / 2) (119 / 8) 0 1 8 15 1 1) = sqrtf ref_libm (97 / 64)"
  by (simp_all add: corner_def Let_def fl_eval)

lemma facing_distances:
  assumes "1 / 4 \<le> a" "a \<le> 1" "81 / 64 \<le> b"
  shows "1 / 2 \<le> sqrtf ref_libm a" "sqrtf ref_libm a < sqrtf ref_libm b"
proof -
  have q: "fl32 (1 / 2) = 1 / 2" "fl32 1 = 1" "fl32 (9 / 8) = 9 / 8"
    by (simp_all add: fl_eval)
  have "(1 / 2) ^ 2 \<le> a" using assms(1) by (simp add: power2_eq_square)
  from ref_sqrt_ge [OF this] show "1 / 2 \<le> sqrtf ref_libm a" by (simp add: q)
  have "a \<le> 1 ^ 2" using assms(2) by simp
  from ref_sqrt_le [OF _ this] have u: "sqrtf ref_libm a \<le> 1" by (simp add: q)
  have "(9 / 8) ^ 2 \<le> b" using assms(3) by (simp add: power2_eq_square)
  from ref_sqrt_ge [OF this] have "9 / 8 \<le> sqrtf ref_libm b" by (simp add: q)
  with u show "sqrtf ref_libm a < sqrtf ref_libm b" by simp
qed

lemma facing_not_boundary_1: "\<not> wallBoundary ref_libm (17 / 2) (239 / 16) 0 1 8 15"
proof -
  note d = facing_distances [of "65 / 256" "353 / 256", simplified]
  have v: "fsub (fadd (fl32 (of_int 15)) (fl32 (of_int 0))) (239 / 16) \<le> 1 / 4"
    by (simp add: fl_eval)
  have "\<not> acos_below ref_libm (snd (corner ref_libm (17 / 2) (239 / 16) 0 1 8 15 tx 0))"
    if "tx = 0 \<or> tx = 1" for tx
  proof (rule not_acos_below, rule corner_facing [OF v])
    from that d(1) show "1 / 2 \<le> fst (corner ref_libm (17 / 2) (239 / 16) 0 1 8 15 tx 0)"
      by (auto simp: facing_corners_1)
  qed
  then show ?thesis
    by (simp add: wallBoundary_near [OF facing_corners_1 d(2)])
qed

lemma facing_not_boundary_2: "\<not> wallBoundary ref_libm (17 / 2) (119 / 8) 0 1 8 15"
proof -
  note d = facing_distances [of "17 / 64" "97 / 64", simplified]
  have v: "fsub (fadd (fl32 (of_int 15)) (fl32 (of_int 0))) (119 / 8) \<le> 1 / 4"
    by (simp add: fl_eval)
  have "\<not> acos_below ref_libm (snd (corner ref_libm (17 / 2) (119 / 8) 0 1 8 15 tx 0))"
    if "tx = 0 \<or> tx = 1" for tx
  proof (rule not_acos_below, rule corner_facing [OF v])
    from that d(1) show "1 / 2 \<le> fst (corner ref_libm (17 / 2) (119 / 8) 0 1 8 15 tx 0)"
      by (auto simp: facing_corners_2)
  qed
  then show ?thesis
    by (simp add: wallBoundary_near [OF facing_corners_2 d(2)])
qed

section \<open>Columns at known poses\<close>

text \<open>
  With heading \<open>0\<close> the ray of screen column \<open>60\<close> has angle exactly \<open>0\<close>, so its
  direction is \<open>(0, 1)\<close> and the march can be evaluated. Three poses in the open cells
  of map column \<open>8\<close> facing a wall: at distance \<open>0.1f\<close>, at \<open>0.2f\<close> and at
  \<open>3.0999992\<close>.
\<close>

lemma fRayAngle_middle: "fRayAngle \<lparr>fPlayerX = px, fPlayerY = py, fPlayerA = 0\<rparr> 60 = 0"
  by (simp add: fRayAngle_def fFOV_def pi_lit_value nScreenWidth_def fl_eval)

lemma castRay_middle:
  "castRay ref_libm \<lparr>fPlayerX = px, fPlayerY = py, fPlayerA = 0\<rparr> 60 =
   rayLoop ref_libm px py 0 1 ray0"
  by (simp add: castRay_def fRayAngle_middle ref_libm_at_0)

lemma dseq_1: "dseq (Suc 0) = 13421773 / 134217728"
  by (simp add: eval_nat_numeral dseq_0 dseq_Suc step_value fl_fast)

lemma dseq_2: "dseq (Suc (Suc 0)) = 13421773 / 67108864"
  by (simp add: eval_nat_numeral dseq_0 dseq_Suc step_value fl_fast)

lemma near_wall_1_state:
  "castRay ref_libm \<lparr>fPlayerX = 17 / 2, fPlayerY = 239 / 16, fPlayerA = 0\<rparr> 60 =
   Some \<lparr>fDistanceToWall = 13421773 / 134217728, bHitWall = True, bBoundary = False\<rparr>"
proof -
  have w: "sample (17 / 2) (239 / 16) 0 1 1 = WallCell"
    by (simp add: sample_def eval_nat_numeral dseq_1 cell_eval fl_fast)
  have c: "c_int (fadd (17 / 2) (fmul 0 (13421773 / 134217728))) = 8"
    "c_int (fadd (239 / 16) (fmul 1 (13421773 / 134217728))) = 15"
    by (simp_all add: fl_fast)
  from wall_event_state [of 1, OF _ _ _ w, of ref_libm] show ?thesis
    by (simp add: castRay_middle dseq_1 c facing_not_boundary_1)
qed

lemma near_wall_2_state:
  "castRay ref_libm \<lparr>fPlayerX = 17 / 2, fPlayerY = 119 / 8, fPlayerA = 0\<rparr> 60 =
   Some \<lparr>fDistanceToWall = 13421773 / 67108864, bHitWall = True, bBoundary = False\<rparr>"
proof -
  have o: "sample (17 / 2) (119 / 8) 0 1 1 = OpenCell"
    by (simp add: sample_def eval_nat_numeral dseq_1 cell_eval fl_fast)
  have w: "sample (17 / 2) (119 / 8) 0 1 2 = WallCell"
    by (simp add: sample_def eval_nat_numeral dseq_2 cell_eval fl_fast)
  have op: "sample (17 / 2) (119 / 8) 0 1 j = OpenCell" if "1 \<le> j" "j < 2" for j
  proof -
    from that have "j = 1" by simp
    with o show ?thesis by simp
  qed
  have c: "c_int (fadd (17 / 2) (fmul 0 (13421773 / 67108864))) = 8"
    "c_int (fadd (119 / 8) (fmul 1 (13421773 / 67108864))) = 15"
    by (simp_all add: fl_fast)
  from wall_event_state [of 2, OF _ _ op w, of ref_libm] show ?thesis
    by (simp add: castRay_middle eval_nat_numeral dseq_2 c facing_not_boundary_2)
qed

lemma dseq_31: "dseq 31 = 13002339 / 4194304"
  by (simp add: eval_nat_numeral dseq_0 dseq_Suc step_value fl_fast)

lemma mid_wall:
  "\<exists>r. castRay ref_libm \<lparr>fPlayerX = 17 / 2, fPlayerY = 9, fPlayerA = 0\<rparr> 60 = Some r \<and>
       fDistanceToWall r = 13002339 / 4194304"
proof -
  have run: "open_run (17 / 2) 9 0 1 30 (dseq 0)"
    unfolding dseq_0 by (simp add: eval_nat_numeral step_value cell_eval fl_fast)
  have w: "sample (17 / 2) 9 0 1 31 = WallCell"
    by (simp add: sample_def dseq_31 cell_eval fl_fast)
  have op: "sample (17 / 2) 9 0 1 j = OpenCell" if "1 \<le> j" "j < 31" for j
    by (rule open_run_sample [OF run]) (use that in simp_all)
  from wall_event [of 31, OF _ _ op w, of ref_libm] show ?thesis
    by (auto simp: castRay_middle dseq_31)
qed

text \<open>
  A position outside the map. \<open>MovePlayer\<close> tests only the cell of the destination, so
  a long frame carries the player through the border: from \<open>(14.5, 3.5)\<close>, heading east
  (the sine of the heading is \<open>1\<close>, the cosine small), a frame of \<open>0.6\<close> s ends at
  \<open>x = 17.5\<close>, where the index \<open>3 * 16 + 17 = 65\<close> is the open cell \<open>(1, 4)\<close> and the
  move is kept. From \<open>x = 17.5\<close> the first sample of every ray whose direction has a
  sine of at least \<open>-1\<close> is outside the map, so every column reports \<open>fDepth\<close>.
\<close>

lemma tunnel_move:
  assumes s: "sinf L a = 1" and c: "\<bar>cosf L a\<bar> \<le> 1 / 16"
  shows "MovePlayer L (29 / 2, 7 / 2) a (fl32 (6 / 10)) True =
         Inr (35 / 2, fadd (7 / 2) (fmul (fmul (cosf L a) fSpeed) (fl32 (6 / 10))))"
proof -
  let ?t = "5033165 / 8388608 :: real"
  let ?m = "fmul (cosf L a) fSpeed"
  let ?y = "fadd (7 / 2) (fmul ?m ?t)"
  have t: "fl32 (6 / 10) = ?t" by (simp add: fl_eval)
  have x: "fadd (29 / 2) (fmul (fmul 1 fSpeed) ?t) = 35 / 2"
    by (simp add: fSpeed_def fl_eval)
  have "fl32 (- 5 / 16) \<le> fl32 (cosf L a * 5)" "fl32 (cosf L a * 5) \<le> fl32 (5 / 16)"
    using c by (auto intro!: fl32_mono)
  moreover have "fl32 (- 5 / 16) = - 5 / 16" "fl32 (5 / 16) = 5 / 16"
    by (simp_all add: fl_eval)
  ultimately have m: "- 5 / 16 \<le> ?m" "?m \<le> 5 / 16"
    by (simp_all add: fmul_def fSpeed_def)
  have e: "fl32 (- (5 / 16) * ?t) = - (3 / 16)" "fl32 (5 / 16 * ?t) = 3 / 16"
    by (simp_all add: fl_eval)
  have "- (5 / 16) * ?t \<le> ?m * ?t" "?m * ?t \<le> 5 / 16 * ?t"
    using m by simp_all
  from this [THEN fl32_mono]
  have v: "- (3 / 16) \<le> fmul ?m ?t" "fmul ?m ?t \<le> 3 / 16"
    by (simp_all only: e fmul_def)
  have "fl32 (7 / 2 + - (3 / 16)) \<le> fl32 (7 / 2 + fmul ?m ?t)"
    "fl32 (7 / 2 + fmul ?m ?t) \<le> fl32 (7 / 2 + 3 / 16)"
    using v by (auto intro!: fl32_mono)
  moreover have "fl32 (7 / 2 + - (3 / 16)) = 53 / 16" "fl32 (7 / 2 + 3 / 16) = 59 / 16"
    by (simp_all add: fl_eval)
  ultimately have y: "53 / 16 \<le> ?y" "?y \<le> 59 / 16"
    by (simp_all add: fadd_def [of "7 / 2"])
  have "c_int (53 / 16) \<le> c_int ?y" "c_int ?y \<le> c_int (59 / 16)"
    using y by (auto intro!: c_int_mono)
  moreover have "c_int (53 / 16) = 3" "c_int (59 / 16) = 3" by (simp_all add: c_int_def)
  ultimately have cy: "c_int ?y = 3" by simp
  have cx: "c_int (35 / 2) = 17" by (simp add: c_int_def)
  have i: "map_at 65 = Inr (CHR ''.'')"
    by (simp add: map_at_def length_map_w map_w_flat)
  have "MovePlayer L (29 / 2, 7 / 2) a ?t True = Inr (35 / 2, ?y)"
    by (simp add: MovePlayer_def Let_def s x cy cx nMapWidth_def i)
  then show ?thesis by (simp only: t)
qed

lemma outside_east_column:
  assumes x: "fPlayerX P = 35 / 2" and s: "- 1 \<le> sinf L (fRayAngle P x)"
  shows "castRay L P x = Some \<lparr>fDistanceToWall = fDepth, bHitWall = True, bBoundary = False\<rparr>"
proof -
  let ?e = "sinf L (fRayAngle P x)"
  let ?d = "13421773 / 134217728 :: real"
  have d: "dseq (Suc 0) = ?d"
    by (simp add: eval_nat_numeral dseq_0 dseq_Suc step_value fl_fast)
  have "- ?d \<le> ?e * ?d" using s by simp
  from fl32_mono [OF this] have "fl32 (- ?d) \<le> fmul ?e ?d" by (simp add: fmul_def)
  moreover have "fl32 (- ?d) = - ?d" by (simp add: fl_eval)
  ultimately have "35 / 2 + - ?d \<le> 35 / 2 + fmul ?e ?d" by simp
  from fl32_mono [OF this] have "fl32 (35 / 2 + - ?d) \<le> fadd (35 / 2) (fmul ?e ?d)"
    by (simp add: fadd_def)
  moreover have "fl32 (35 / 2 + - ?d) = 9122611 / 524288" by (simp add: fl_eval)
  ultimately have "9122611 / 524288 \<le> fadd (35 / 2) (fmul ?e ?d)" by simp
  from c_int_mono [OF this] have n: "17 \<le> c_int (fadd (35 / 2) (fmul ?e ?d))"
    by (simp add: c_int_def)
  have o: "sample (35 / 2) (fPlayerY P) ?e (cosf L (fRayAngle P x)) 1 = OutOfMap"
    using n by (simp add: sample_def d cell_at_def Let_def nMapWidth_def)
  from out_event [of 1, OF _ _ _ o, of L] show ?thesis
    by (simp add: castRay_def x)
qed

section \<open>The wall slab of a column: the claim\<close>

text \<open>
  C7 as stated: the ceiling row count is \<open>nCeiling\<close> and a smaller distance yields a
  taller slab. The column \<open>60\<close> of a player at \<open>(8.5, 14.9375)\<close> has distance \<open>0.1f\<close>
  and that of a player at \<open>(8.5, 14.875)\<close> has \<open>0.2f\<close>, both in the open cell
  \<open>(8, 14)\<close> facing the bottom border. In both frames the column holds the wall glyph
  \<open>0x2588\<close> on all \<open>40\<close> rows, so the nearer slab is not taller; and at \<open>0.1f\<close>
  \<open>nCeiling\<close> is \<open>-380\<close>, while no row is a ceiling row.
\<close>

theorem nearer_slab_not_taller:
  "castRay ref_libm \<lparr>fPlayerX = 17 / 2, fPlayerY = 239 / 16, fPlayerA = 0\<rparr> 60 =
     Some \<lparr>fDistanceToWall = 13421773 / 134217728, bHitWall = True, bBoundary = False\<rparr> \<and>
   castRay ref_libm \<lparr>fPlayerX = 17 / 2, fPlayerY = 119 / 8, fPlayerA = 0\<rparr> 60 =
     Some \<lparr>fDistanceToWall = 13421773 / 67108864, bHitWall = True, bBoundary = False\<rparr> \<and>
   (13421773 / 134217728 :: real) < 13421773 / 67108864 \<and>
   map (\<lambda>y. the (RenderScene ref_libm
                    \<lparr>fPlayerX = 17 / 2, fPlayerY = 239 / 16, fPlayerA = 0\<rparr> (\<lambda>i. 0) 0)
               (nat (y * nScreenWidth + 60))) [0 .. nScreenHeight - 1] = replicate 40 0x2588 \<and>
   map (\<lambda>y. the (RenderScene ref_libm
                    \<lparr>fPlayerX = 17 / 2, fPlayerY = 119 / 8, fPlayerA = 0\<rparr> (\<lambda>i. 0) 0)
               (nat (y * nScreenWidth + 60))) [0 .. nScreenHeight - 1] = replicate 40 0x2588 \<and>
   card (wallRows (13421773 / 134217728)) = 40 \<and>
   card (wallRows (13421773 / 67108864)) = 40 \<and>
   \<not> card (wallRows (13421773 / 67108864)) < card (wallRows (13421773 / 134217728)) \<and>
   nCeiling (13421773 / 134217728) = - 380 \<and>
   card (ceilingRows (13421773 / 134217728)) = 0"
proof -
  have n: "nCeiling (13421773 / 134217728) = - 380" "nCeiling (13421773 / 67108864) = - 180"
    by (simp_all add: nCeiling_formula fl_eval)
  have x: "(0::int) \<le> 60" "60 < nScreenWidth" by (simp_all add: nScreenWidth_def)
  have g: "nShade (13421773 / 134217728) False = 0x2588"
    "nShade (13421773 / 67108864) False = 0x2588"
    by (simp_all add: nShade_def fDepth_def shade_thresholds)
  have f1: "map (\<lambda>y. the (RenderScene ref_libm
                    \<lparr>fPlayerX = 17 / 2, fPlayerY = 239 / 16, fPlayerA = 0\<rparr> (\<lambda>i. 0) 0)
               (nat (y * nScreenWidth + 60))) [0 .. nScreenHeight - 1] = replicate 40 0x2588"
    using frame_column [OF x near_wall_1_state, of "\<lambda>i. 0" 0]
      full_slab [of "13421773 / 134217728" False]
    by (simp add: n g)
  have f2: "map (\<lambda>y. the (RenderScene ref_libm
                    \<lparr>fPlayerX = 17 / 2, fPlayerY = 119 / 8, fPlayerA = 0\<rparr> (\<lambda>i. 0) 0)
               (nat (y * nScreenWidth + 60))) [0 .. nScreenHeight - 1] = replicate 40 0x2588"
    using frame_column [OF x near_wall_2_state, of "\<lambda>i. 0" 0]
      full_slab [of "13421773 / 67108864" False]
    by (simp add: n g)
  show ?thesis
    using near_wall_1_state near_wall_2_state f1 f2
    by (simp add: n wallRows_eq ceilingRows_eq)
qed

text \<open>
  C7, amended. For every screen column, with \<open>d\<close> the distance its march reports:
  \<open>d\<close> lies between \<open>0.1f\<close> and \<open>16.0000248\<close>,
  \<open>nCeiling = (int)(20 - 40 / d)\<close> in float arithmetic, between \<open>-380\<close> and \<open>17\<close>, and
  \<open>nFloor = 40 - nCeiling\<close>. In the rendered frame the column holds a space on its
  ceiling rows (\<open>y < nCeiling\<close>), the wall glyph on its wall rows
  (\<open>nCeiling \<le> y < nFloor\<close>) and the floor glyph on the others. There are as many
  ceiling rows as floor rows, \<open>nCeiling\<close> of each when \<open>nCeiling\<close> is not negative and
  none when it is; the slab has \<open>40 - 2 * max 0 nCeiling\<close> rows and is symmetric about the
  middle of the screen (row \<open>y\<close> is a wall row exactly when row \<open>39 - y\<close> is); and a
  column with a smaller distance has a slab at least as tall, not always a taller one.
\<close>

theorem wall_slab_of_column:
  assumes "0 \<le> x" and "x < nScreenWidth"
    and "castRay L P x = Some r"
    and "RenderScene L P scr fElapsedTime = Some scr'"
    and "d = fDistanceToWall r"
  shows "13421773 / 134217728 \<le> d \<and> d \<le> 8388621 / 524288 \<and>
         nCeiling d = c_int (fsub 20 (fdiv 40 d)) \<and>
         - 380 \<le> nCeiling d \<and> nCeiling d \<le> 17 \<and>
         nFloor d = nScreenHeight - nCeiling d \<and>
         (\<forall>y\<in>ceilingRows d. scr' (nat (y * nScreenWidth + x)) = of_char (CHR '' '')) \<and>
         (\<forall>y\<in>wallRows d. scr' (nat (y * nScreenWidth + x)) = nShade d (bBoundary r)) \<and>
         (\<forall>y\<in>floorRows d. scr' (nat (y * nScreenWidth + x)) = nFloorShade y) \<and>
         screenRows = ceilingRows d \<union> wallRows d \<union> floorRows d \<and>
         card (ceilingRows d) = nat (nCeiling d) \<and>
         card (floorRows d) = nat (nCeiling d) \<and>
         card (wallRows d) = nat (nScreenHeight - 2 * max 0 (nCeiling d)) \<and>
         (\<forall>y. y \<in> wallRows d \<longleftrightarrow> nScreenHeight - 1 - y \<in> wallRows d) \<and>
         (\<forall>L' P' x' r'. castRay L' P' x' = Some r' \<and> fDistanceToWall r' \<le> d \<longrightarrow>
              card (wallRows d) \<le> card (wallRows (fDistanceToWall r')))"
proof -
  have march: "rayLoop L (fPlayerX P) (fPlayerY P) (sinf L (fRayAngle P x))
      (cosf L (fRayAngle P x)) ray0 = Some r"
    using assms(3) by (simp add: castRay_def)
  have pos: "0 < d" using march_distance_positive [OF march] assms(5) by simp
  have dist: "13421773 / 134217728 \<le> d" "d \<le> 8388621 / 524288"
    using march_distance_bounds [OF march] assms(5) by simp_all
  have range: "- 380 \<le> nCeiling d" "nCeiling d \<le> 17"
    using nCeiling_march_range [OF march] assms(5) by simp_all
  have cell: "scr' (nat (y * nScreenWidth + x)) = rowGlyph d (bBoundary r) y"
    if "y \<in> screenRows" for y
  proof -
    from that have "0 \<le> y" "y < nScreenHeight" by (simp_all add: screenRows_def)
    from render_cell [OF assms(1,2) this assms(3,4)] show ?thesis
      by (simp add: assms(5))
  qed
  have ce: "scr' (nat (y * nScreenWidth + x)) = of_char (CHR '' '')" if "y \<in> ceilingRows d" for y
  proof -
    from that have "y \<in> screenRows" by (simp add: ceilingRows_def)
    from cell [OF this] rowGlyph_rows [OF this, of d "bBoundary r"] that show ?thesis by simp
  qed
  have wa: "scr' (nat (y * nScreenWidth + x)) = nShade d (bBoundary r)" if "y \<in> wallRows d" for y
  proof -
    from that have s: "y \<in> screenRows" and n: "y \<notin> ceilingRows d"
      by (simp_all add: wallRows_def ceilingRows_def)
    from cell [OF s] rowGlyph_rows [OF s, of d "bBoundary r"] that n show ?thesis by simp
  qed
  have fl: "scr' (nat (y * nScreenWidth + x)) = nFloorShade y" if "y \<in> floorRows d" for y
  proof -
    from that have s: "y \<in> screenRows" and n: "y \<notin> ceilingRows d" "y \<notin> wallRows d"
      by (simp_all add: floorRows_def wallRows_def ceilingRows_def)
    from cell [OF s] rowGlyph_rows [OF s, of d "bBoundary r"] n show ?thesis by simp
  qed
  have c20: "nCeiling d \<le> 20" using range(2) by simp
  have cards: "card (ceilingRows d) = nat (nCeiling d)" "card (floorRows d) = nat (nCeiling d)"
    "card (wallRows d) = nat (nScreenHeight - 2 * max 0 (nCeiling d))"
    using c20 by (simp_all add: ceilingRows_eq floorRows_eq wallRows_eq nScreenHeight_def)
  have sym: "y \<in> wallRows d \<longleftrightarrow> nScreenHeight - 1 - y \<in> wallRows d" for y
    by (auto simp: wallRows_eq nScreenHeight_def)
  have mono: "card (wallRows d) \<le> card (wallRows (fDistanceToWall r'))"
    if "castRay L' P' x' = Some r'" "fDistanceToWall r' \<le> d" for L' P' x' r'
  proof -
    have "rayLoop L' (fPlayerX P') (fPlayerY P') (sinf L' (fRayAngle P' x'))
        (cosf L' (fRayAngle P' x')) ray0 = Some r'"
      using that(1) by (simp add: castRay_def)
    from march_distance_positive [OF this] have "0 < fDistanceToWall r'" .
    from nCeiling_mono [OF this that(2)] show ?thesis by (simp add: wallRows_eq)
  qed
  have part: "screenRows = ceilingRows d \<union> wallRows d \<union> floorRows d"
    by (rule rows_partition)
  show ?thesis
    using dist range ce wa fl part cards sym mono
    by (simp add: nCeiling_formula nFloor_def) blast
qed

theorem wall_slab_of_column_witness:
  "map_option fDistanceToWall
     (castRay ref_libm \<lparr>fPlayerX = 17 / 2, fPlayerY = 9, fPlayerA = 0\<rparr> 60)
     = Some (13002339 / 4194304) \<and>
   nCeiling (13002339 / 4194304) = 7 \<and> nFloor (13002339 / 4194304) = 33 \<and>
   card (ceilingRows (13002339 / 4194304)) = 7 \<and>
   card (wallRows (13002339 / 4194304)) = 26 \<and>
   card (floorRows (13002339 / 4194304)) = 7 \<and>
   the (RenderScene ref_libm \<lparr>fPlayerX = 17 / 2, fPlayerY = 9, fPlayerA = 0\<rparr> (\<lambda>i. 0) 0)
     (nat (3 * nScreenWidth + 60)) = of_char (CHR '' '') \<and>
   the (RenderScene ref_libm \<lparr>fPlayerX = 17 / 2, fPlayerY = 9, fPlayerA = 0\<rparr> (\<lambda>i. 0) 0)
     (nat (20 * nScreenWidth + 60)) =
     nShade (13002339 / 4194304)
       (bBoundary (the (castRay ref_libm \<lparr>fPlayerX = 17 / 2, fPlayerY = 9, fPlayerA = 0\<rparr> 60))) \<and>
   the (RenderScene ref_libm \<lparr>fPlayerX = 17 / 2, fPlayerY = 9, fPlayerA = 0\<rparr> (\<lambda>i. 0) 0)
     (nat (36 * nScreenWidth + 60)) = of_char (CHR ''#'') \<and>
   card (wallRows (13002339 / 4194304)) \<le> card (wallRows (13421773 / 134217728))"
proof -
  let ?P = "\<lparr>fPlayerX = 17 / 2, fPlayerY = 9, fPlayerA = 0\<rparr>"
  let ?d = "13002339 / 4194304 :: real"
  obtain r where r: "castRay ref_libm ?P 60 = Some r" "fDistanceToWall r = ?d"
    using mid_wall by blast
  obtain scr' where s: "RenderScene ref_libm ?P (\<lambda>i. 0) 0 = Some scr'"
    using RenderScene_total by blast
  obtain r' where r': "castRay ref_libm \<lparr>fPlayerX = 17 / 2, fPlayerY = 239 / 16, fPlayerA = 0\<rparr> 60
      = Some r'" "fDistanceToWall r' = 13421773 / 134217728"
    using near_wall_1_state by simp
  have x: "(0::int) \<le> 60" "60 < nScreenWidth" by (simp_all add: nScreenWidth_def)
  note t = wall_slab_of_column [OF x r(1) s r(2) [symmetric]]
  have n: "nCeiling ?d = 7" by (simp add: nCeiling_formula fl_eval)
  have rows: "3 \<in> ceilingRows ?d" "20 \<in> wallRows ?d" "36 \<in> floorRows ?d"
    by (simp_all add: ceilingRows_eq wallRows_eq floorRows_eq n)
  from t rows have cells:
    "scr' (nat (3 * nScreenWidth + 60)) = of_char (CHR '' '')"
    "scr' (nat (20 * nScreenWidth + 60)) = nShade ?d (bBoundary r)"
    "scr' (nat (36 * nScreenWidth + 60)) = nFloorShade 36"
    by blast+
  have fs: "nFloorShade 36 = of_char (CHR ''#'')"
    by (simp add: nFloorShade_def nScreenHeight_def Let_def fl_eval)
  from t have "\<forall>L' P' x' r'. castRay L' P' x' = Some r' \<and> fDistanceToWall r' \<le> ?d \<longrightarrow>
      card (wallRows ?d) \<le> card (wallRows (fDistanceToWall r'))"
    by blast
  from this [rule_format, of ref_libm _ 60 r'] r'
  have m: "card (wallRows ?d) \<le> card (wallRows (13421773 / 134217728))" by simp
  from t have cards: "card (ceilingRows ?d) = nat (nCeiling ?d)"
    "card (floorRows ?d) = nat (nCeiling ?d)"
    "card (wallRows ?d) = nat (nScreenHeight - 2 * max 0 (nCeiling ?d))"
    "nFloor ?d = nScreenHeight - nCeiling ?d"
    by blast+
  from cards n cells fs m r s show ?thesis
    by (simp add: nScreenHeight_def)
qed

section \<open>The shading of a column: the claim\<close>

text \<open>
  C5 as stated: for every screen column whose distance equals a shading threshold, the
  threshold belongs to the nearer, brighter bucket. Of the four thresholds the distance
  of a column can equal only \<open>fDepth\<close> (\<open>march_distance_off_thresholds\<close>), which the
  march reports for a ray that leaves the map. A player at \<open>(17.5, 3.5)\<close>, outside the
  map after a move that jumped the east border (\<open>tunnel_move\<close>), has such a column: its
  distance is exactly \<open>fDepth\<close>, row \<open>20\<close> is a wall row, and the frame holds a space
  there, not the glyph \<open>0x2591\<close> of the nearer bucket.
\<close>

theorem depth_threshold_column_is_blank:
  "castRay ref_libm \<lparr>fPlayerX = 35 / 2, fPlayerY = 7 / 2, fPlayerA = 0\<rparr> 60 =
     Some \<lparr>fDistanceToWall = fDepth, bHitWall = True, bBoundary = False\<rparr> \<and>
   20 \<in> wallRows fDepth \<and>
   the (RenderScene ref_libm \<lparr>fPlayerX = 35 / 2, fPlayerY = 7 / 2, fPlayerA = 0\<rparr> (\<lambda>i. 0) 0)
     (nat (20 * nScreenWidth + 60)) = nShade fDepth False \<and>
   nShade fDepth False = of_char (CHR '' '') \<and>
   nShade fDepth False \<noteq> 0x2591"
proof -
  let ?P = "\<lparr>fPlayerX = 35 / 2, fPlayerY = 7 / 2, fPlayerA = 0\<rparr>"
  have s: "sample (35 / 2) (7 / 2) 0 1 1 = OutOfMap"
    by (simp add: sample_def eval_nat_numeral dseq_0 dseq_Suc step_value cell_eval fl_eval)
  have c: "castRay ref_libm ?P 60 =
      Some \<lparr>fDistanceToWall = fDepth, bHitWall = True, bBoundary = False\<rparr>"
    using out_event [of 1, OF _ _ _ s, of ref_libm] by (simp add: castRay_middle)
  have n: "nCeiling fDepth = 17"
    by (simp add: nCeiling_formula fDepth_def fl_eval)
  have w: "20 \<in> wallRows fDepth" by (simp add: wallRows_eq n)
  have g: "rowGlyph fDepth False 20 = nShade fDepth False"
    using w by (simp add: rowGlyph_rows screenRows_def nScreenHeight_def ceilingRows_eq n)
  have f: "the (RenderScene ref_libm ?P (\<lambda>i. 0) 0) (nat (20 * nScreenWidth + 60)) =
      nShade fDepth False"
    using frame_cell [of 60 20 ref_libm ?P "\<lambda>i. 0" 0]
    by (simp add: nScreenWidth_def nScreenHeight_def c g)
  have sh: "nShade fDepth False = of_char (CHR '' '')"
    by (simp add: nShade_def fDepth_def shade_thresholds)
  from c w f sh show ?thesis by simp
qed

text \<open>
  C5, amended. The glyph is a function of the distance and the boundary flag. A boundary
  column is a space at any distance. Otherwise the distance falls in one of four wall
  tiers or beyond them: \<open>d \<le> 4\<close> gives \<open>0x2588\<close>; \<open>4 < d < fDepth / 3\<close> gives
  \<open>0x2593\<close>; \<open>fDepth / 3 \<le> d < 8\<close> gives \<open>0x2592\<close>; \<open>8 \<le> d < 16\<close> gives \<open>0x2591\<close>;
  \<open>16 \<le> d\<close> gives a space. So the threshold \<open>fDepth / 4\<close> belongs to the nearer bucket
  and the thresholds \<open>fDepth / 3\<close> (the float \<open>11184811 / 2097152\<close>), \<open>fDepth / 2\<close> and
  \<open>fDepth\<close> belong to the farther one.
\<close>

theorem shade_tiers:
  "nShade d b =
     (if b then of_char (CHR '' '')
      else if d \<le> 4 then 0x2588
      else if d < 11184811 / 2097152 then 0x2593
      else if d < 8 then 0x2592
      else if d < 16 then 0x2591
      else of_char (CHR '' '')) \<and>
   nShade (fdiv fDepth 4) False = 0x2588 \<and>
   nShade (fdiv fDepth 3) False = 0x2592 \<and>
   nShade (fdiv fDepth 2) False = 0x2591 \<and>
   nShade fDepth False = of_char (CHR '' '')"
  by (simp add: nShade_def shade_thresholds fDepth_def)

end
